theory Spec2Isabelle
  imports Complex_Main "HOL-Library.Multiset"
begin

section \<open>Reef identifier allocation (04-allocate-ReefIDs.py)\<close>

text \<open>
  The script keeps the active alphabet in the module globals \<open>base_char_set\<close> and
  \<open>encoding_base = len(base_char_set)\<close>; \<open>main\<close> sets them from \<open>BASE_CHAR_SETS\<close>.
  Every function below takes the alphabet as its first argument \<open>cs\<close> and reads the
  base as \<open>length cs\<close>. Python exceptions are values of \<open>py_error\<close>; a function that
  can raise returns \<open>py_error + 'a\<close> with \<open>Inl\<close> the exception. A \<open>while\<close> loop
  whose termination depends on the alphabet returns an \<open>option\<close>, \<open>None\<close> meaning that
  the loop never ends.
\<close>

subsection \<open>Alphabets\<close>

definition BASE_B32_CAPS :: string where
  "BASE_B32_CAPS = ''23456789ABCDEFGHJKLMNPQRSTUVWXYZ''"

definition BASE_B32_LOWER :: string where
  "BASE_B32_LOWER = ''23456789abcdefghjklmnpqrstuvwxyz''"

definition BASE_B10 :: string where
  "BASE_B10 = ''0123456789''"

definition BASE_B16 :: string where
  "BASE_B16 = ''0123456789ABCDEF''"

definition BASE_B14 :: string where
  "BASE_B14 = ''23456789ABCDEF''"

datatype py_error = IndexError | ValueError | KeyError | ZeroDivisionError | OverflowError

subsection \<open>Base-N symbol codec\<close>

text \<open>
  \<open>encode_base_str(value)\<close> is \<open>base_char_set[value]\<close>: Python indexing, where a negative
  index counts from the end and an index out of range raises \<open>IndexError\<close>.
\<close>

definition encode_base_str :: "string \<Rightarrow> int \<Rightarrow> py_error + char" where
  "encode_base_str cs v =
     (let n = int (length cs); j = (if v < 0 then n + v else v)
      in if 0 \<le> j \<and> j < n then Inr (cs ! nat j) else Inl IndexError)"

text \<open>\<open>str.index\<close>: the position of the first occurrence, \<open>ValueError\<close> when absent.\<close>

fun str_index :: "string \<Rightarrow> char \<Rightarrow> nat option" where
  "str_index [] c = None"
| "str_index (x # xs) c =
     (if x = c then Some 0 else map_option Suc (str_index xs c))"

definition decode_base_str :: "string \<Rightarrow> char \<Rightarrow> py_error + int" where
  "decode_base_str cs c =
     (case str_index cs c of None \<Rightarrow> Inl ValueError | Some i \<Rightarrow> Inr (int i))"

subsection \<open>Sequential counter encoder\<close>

text \<open>
  The first loop of \<open>encode_counter\<close>:
  \<^verbatim>\<open>
    while counter > 0:
        encoded = base_char_set[counter % encoding_base] + encoded
        counter //= encoding_base
  \<close>
  With a one-symbol alphabet \<open>counter //= 1\<close> leaves a positive counter unchanged and the
  loop runs forever; with an empty alphabet \<open>counter % 0\<close> raises.
\<close>

partial_function (option) encode_counter_digits ::
  "string \<Rightarrow> int \<Rightarrow> string \<Rightarrow> (py_error + string) option" where
  [code]: "encode_counter_digits cs counter encoded =
     (if counter > 0 then
        (if length cs = 0 then Some (Inl ZeroDivisionError)
         else (case encode_base_str cs (counter mod int (length cs)) of
                 Inl e \<Rightarrow> Some (Inl e)
               | Inr c \<Rightarrow>
                   encode_counter_digits cs (counter div int (length cs)) (c # encoded)))
      else Some (Inr encoded))"

text \<open>
  The second loop:
  \<^verbatim>\<open>
    while len(encoded) < zero_padding:
        encoded = base_char_set[0] + encoded
  \<close>
\<close>

function encode_counter_pad :: "string \<Rightarrow> string \<Rightarrow> int \<Rightarrow> py_error + string" where
  "encode_counter_pad cs encoded zero_padding =
     (if int (length encoded) < zero_padding then
        (case encode_base_str cs 0 of
           Inl e \<Rightarrow> Inl e
         | Inr c \<Rightarrow> encode_counter_pad cs (c # encoded) zero_padding)
      else Inr encoded)"
  by pat_completeness auto
termination
  by (relation "measure (\<lambda>(cs, encoded, zero_padding). nat (zero_padding - int (length encoded)))")
     auto

declare encode_counter_pad.simps [simp del]

definition encode_counter :: "string \<Rightarrow> int \<Rightarrow> int \<Rightarrow> (py_error + string) option" where
  "encode_counter cs counter zero_padding =
     (case encode_counter_digits cs counter [] of
        None \<Rightarrow> None
      | Some (Inl e) \<Rightarrow> Some (Inl e)
      | Some (Inr encoded) \<Rightarrow> Some (encode_counter_pad cs encoded zero_padding))"

text \<open>
  \<open>decode_counter\<close>: the \<open>for char in encoded_counter\<close> loop with its accumulator
  \<open>counter\<close>, started at 0.
\<close>

fun decode_counter_from :: "string \<Rightarrow> int \<Rightarrow> string \<Rightarrow> py_error + int" where
  "decode_counter_from cs counter [] = Inr counter"
| "decode_counter_from cs counter (c # rest) =
     (case decode_base_str cs c of
        Inl e \<Rightarrow> Inl e
      | Inr d \<Rightarrow> decode_counter_from cs (counter * int (length cs) + d) rest)"

definition decode_counter :: "string \<Rightarrow> string \<Rightarrow> py_error + int" where
  "decode_counter cs encoded_counter = decode_counter_from cs 0 encoded_counter"

subsection \<open>Binary64 arithmetic\<close>

text \<open>
  Coordinates are Python floats, that is binary64 values. Every finite binary64 value is
  a rational, so a float is modelled by the rational it denotes, and every operation
  that rounds in the script rounds here: the exact rational result is taken to the
  nearest binary64 value, ties to the one with an even significand (\<open>round64\<close>). A
  binary64 value has at most 53 significant bits and is a multiple of \<open>2 ^ -1074\<close>; a
  result that rounds to \<open>2 ^ 1024\<close> or more in magnitude is an infinity in the script
  (\<open>overflows\<close>). The sign of a zero is not modelled: it reaches no comparison and no
  \<open>int\<close>. Infinities and NaN are not values of the model: a coordinate is a finite
  float.
\<close>

text \<open>The number of bits of a positive integer, 0 for the others.\<close>

function bit_length :: "int \<Rightarrow> int" where
  "bit_length n = (if n \<le> 0 then 0 else 1 + bit_length (n div 2))"
  by pat_completeness auto
termination
  by (relation "measure nat") auto

declare bit_length.simps [simp del]

function pow2 :: "int \<Rightarrow> rat" where
  "pow2 e = (if e = 0 then 1 else if 0 < e then 2 * pow2 (e - 1) else pow2 (e + 1) / 2)"
  by pat_completeness auto
termination
  by (relation "measure (\<lambda>e. nat \<bar>e\<bar>)") auto

declare pow2.simps [simp del]

text \<open>The binary exponent of a positive rational \<open>x\<close>: the \<open>e\<close> with \<open>2 ^ e \<le> x < 2 ^ (e + 1)\<close>.\<close>

definition ilog2 :: "rat \<Rightarrow> int" where
  "ilog2 x =
     (let (p, q) = quotient_of x;
          d = bit_length p - bit_length q
      in if pow2 d \<le> x then d else d - 1)"

definition round_half_even :: "rat \<Rightarrow> int" where
  "round_half_even r =
     (let f = \<lfloor>r\<rfloor>;
          d = r - of_int f
      in if d < 1 / 2 then f
         else if 1 / 2 < d then f + 1
         else if f mod 2 = 0 then f else f + 1)"

definition round64 :: "rat \<Rightarrow> rat" where
  "round64 x =
     (if x = 0 then 0
      else
        let e = ilog2 \<bar>x\<bar>;
            q = pow2 (max (e - 52) (- 1074))
        in of_int (round_half_even (x / q)) * q)"

definition overflows :: "rat \<Rightarrow> bool" where
  "overflows x = (1024 < bit_length \<lfloor>\<bar>x\<bar>\<rfloor>)"

definition is_binary64 :: "rat \<Rightarrow> bool" where
  "is_binary64 x = (round64 x = x \<and> \<not> overflows x)"

text \<open>
  C's \<open>fmod\<close>: \<open>x - n * y\<close> where \<open>n\<close> is the quotient truncated towards zero. The result
  is a binary64 value whenever \<open>x\<close> and \<open>y\<close> are: \<open>fmod\<close> does not round.
\<close>

definition fmod :: "rat \<Rightarrow> rat \<Rightarrow> rat" where
  "fmod x y =
     (let r = x / y;
          n = (if 0 \<le> r then \<lfloor>r\<rfloor> else \<lceil>r\<rceil>)
      in x - y * of_int n)"

text \<open>
  CPython computes \<open>vx // wx\<close> and \<open>vx % wx\<close> on floats with one routine: the remainder is
  \<open>fmod(vx, wx)\<close>, moved by \<open>wx\<close> when its sign is not the sign of \<open>wx\<close>; the quotient is
  \<open>(vx - mod) / wx\<close>, less 1 in that case, then snapped to an integer: its floor, or the
  floor plus 1 when the quotient is more than 0.5 above its floor. The result here is
  the quotient before snapping, the floor quotient and the remainder. \<open>wx\<close> is not zero.
\<close>

definition float_div_mod :: "rat \<Rightarrow> rat \<Rightarrow> rat \<times> rat \<times> rat" where
  "float_div_mod vx wx =
     (let mod0 = fmod vx wx;
          div0 = round64 (round64 (vx - mod0) / wx);
          adjust = (mod0 \<noteq> 0 \<and> (wx < 0) \<noteq> (mod0 < 0));
          mod1 = (if adjust then round64 (mod0 + wx) else mod0);
          div1 = (if adjust then round64 (div0 - 1) else div0);
          fl = of_int \<lfloor>div1\<rfloor>;
          floordiv = (if div1 = 0 then 0
                      else if 1 / 2 < round64 (div1 - fl) then round64 (fl + 1)
                      else fl)
      in (div1, floordiv, mod1))"

text \<open>
  \<open>int(vx // wx)\<close>: a zero divisor raises \<open>ZeroDivisionError\<close>; when the quotient
  overflows, \<open>vx // wx\<close> is an infinity and \<open>int\<close> raises \<open>OverflowError\<close>; otherwise the
  floor quotient is an integral float and \<open>int\<close> gives that integer.
\<close>

definition py_floordiv :: "rat \<Rightarrow> rat \<Rightarrow> py_error + int" where
  "py_floordiv vx wx =
     (if wx = 0 then Inl ZeroDivisionError
      else
        let (d, floordiv, m) = float_div_mod vx wx
        in if overflows d then Inl OverflowError else Inr \<lfloor>floordiv\<rfloor>)"

text \<open>\<open>vx % wx\<close> on floats.\<close>

definition py_mod :: "rat \<Rightarrow> rat \<Rightarrow> py_error + rat" where
  "py_mod vx wx =
     (if wx = 0 then Inl ZeroDivisionError
      else let (d, floordiv, m) = float_div_mod vx wx in Inr m)"

text \<open>
  \<open>x / n\<close> for a float \<open>x\<close> and a Python integer \<open>n\<close>: the integer is first converted to
  a float, which raises \<open>OverflowError\<close> when it is too large.
\<close>

definition float_div_int :: "rat \<Rightarrow> int \<Rightarrow> py_error + rat" where
  "float_div_int x n =
     (let y = round64 (of_int n)
      in if overflows y then Inl OverflowError
         else if y = 0 then Inl ZeroDivisionError
         else Inr (round64 (x / y)))"

subsection \<open>Geographic grid encoder\<close>

text \<open>
  \<open>encode_grid(lon, lat)\<close>, with the alphabet \<open>base_char_set\<close> as a parameter.
  \<open>LON_SLICE_SIZE = 360 / encoding_base\<close> and \<open>LAT_SLICE_SIZE = 180 / encoding_base\<close> are
  quotients of two Python integers: the correctly rounded float, and
  \<open>ZeroDivisionError\<close> on an empty alphabet. The four digits are computed in the order
  of the source (\<open>lon_major\<close>, \<open>lat_major\<close>, \<open>lon_sub\<close>, \<open>lat_sub\<close>) and then looked up
  in the order of the returned string (\<open>lon_major\<close>, \<open>lon_sub\<close>, \<open>lat_major\<close>,
  \<open>lat_sub\<close>).
\<close>

definition encode_grid :: "string \<Rightarrow> rat \<Rightarrow> rat \<Rightarrow> py_error + string" where
  "encode_grid cs lon0 lat0 =
     (if length cs = 0 then Inl ZeroDivisionError
      else
        let encoding_base = int (length cs);
            LON_SLICE_SIZE = round64 (360 / of_int encoding_base);
            LAT_SLICE_SIZE = round64 (180 / of_int encoding_base);
            lon = round64 (lon0 + 180);
            lat = round64 (lat0 + 90)
        in (case py_floordiv lon LON_SLICE_SIZE of
              Inl e \<Rightarrow> Inl e
            | Inr lon_major \<Rightarrow>
          (case py_floordiv lat LAT_SLICE_SIZE of
              Inl e \<Rightarrow> Inl e
            | Inr lat_major \<Rightarrow>
          (case py_mod lon LON_SLICE_SIZE of
              Inl e \<Rightarrow> Inl e
            | Inr lon_rem \<Rightarrow>
          (case float_div_int LON_SLICE_SIZE encoding_base of
              Inl e \<Rightarrow> Inl e
            | Inr lon_step \<Rightarrow>
          (case py_floordiv lon_rem lon_step of
              Inl e \<Rightarrow> Inl e
            | Inr lon_sub \<Rightarrow>
          (case py_mod lat LAT_SLICE_SIZE of
              Inl e \<Rightarrow> Inl e
            | Inr lat_rem \<Rightarrow>
          (case float_div_int LAT_SLICE_SIZE encoding_base of
              Inl e \<Rightarrow> Inl e
            | Inr lat_step \<Rightarrow>
          (case py_floordiv lat_rem lat_step of
              Inl e \<Rightarrow> Inl e
            | Inr lat_sub \<Rightarrow>
          (case encode_base_str cs lon_major of
              Inl e \<Rightarrow> Inl e
            | Inr a \<Rightarrow>
          (case encode_base_str cs lon_sub of
              Inl e \<Rightarrow> Inl e
            | Inr b \<Rightarrow>
          (case encode_base_str cs lat_major of
              Inl e \<Rightarrow> Inl e
            | Inr c \<Rightarrow>
          (case encode_base_str cs lat_sub of
              Inl e \<Rightarrow> Inl e
            | Inr d \<Rightarrow> Inr [a, b, c, d])))))))))))))"

subsection \<open>Identifier allocator\<close>

text \<open>
  A row of the GeoDataFrame: the \<open>ReefID\<close> attribute (\<open>None\<close> when \<open>pd.isna\<close> holds: the
  value is missing or the column was just added) and the centroid \<open>(geom.x, geom.y)\<close> of
  the geometry, which the script gets from the geometry library. Rows are addressed by
  their position, the index that reading a file gives them.
\<close>

record feature =
  ReefID :: "string option"
  centroid :: "rat \<times> rat"

text \<open>\<open>gdf['centroid_sum']\<close>: the float sum \<open>geom.x + geom.y\<close>.\<close>

definition centroid_sum :: "feature \<Rightarrow> rat" where
  "centroid_sum row = round64 (fst (centroid row) + snd (centroid row))"

text \<open>\<open>str.split(sep)\<close> with a one-character separator: every occurrence splits.\<close>

fun split_sep :: "char \<Rightarrow> string \<Rightarrow> string list" where
  "split_sep sep [] = [[]]"
| "split_sep sep (c # s) =
     (if c = sep then [] # split_sep sep s
      else (let ps = split_sep sep s in (c # hd ps) # tl ps))"

text \<open>
  \<open>existing_prefix, grid_scheme, feature_counter = reef_id.split('-')\<close>: unpacking
  raises \<open>ValueError\<close> unless there are exactly three parts.
\<close>

definition split_reef_id :: "string \<Rightarrow> py_error + string \<times> string \<times> string" where
  "split_reef_id reef_id =
     (case split_sep CHR ''-'' reef_id of
        [existing_prefix, grid_scheme, feature_counter] \<Rightarrow>
          Inr (existing_prefix, grid_scheme, feature_counter)
      | _ \<Rightarrow> Inl ValueError)"

text \<open>
  The two dictionaries of the run, \<open>grid_feature_count[prefix][grid_scheme]\<close> (an int)
  and \<open>grid_existing_ids[prefix][grid_scheme]\<close> (a set of counter codes), are nested
  maps; reading a missing key raises \<open>KeyError\<close>.
\<close>

type_synonym feature_count = "string \<rightharpoonup> (string \<rightharpoonup> int)"
type_synonym existing_ids = "string \<rightharpoonup> (string \<rightharpoonup> string set)"

text \<open>The body of the loop over existing ReefIDs (lines 95 to 109), for one \<open>reef_id\<close>.\<close>

definition register_existing ::
  "string \<Rightarrow> string \<Rightarrow> feature_count \<times> existing_ids \<Rightarrow> py_error + feature_count \<times> existing_ids" where
  "register_existing cs reef_id st =
     (case st of (grid_feature_count, grid_existing_ids) \<Rightarrow>
      (case split_reef_id reef_id of
         Inl e \<Rightarrow> Inl e
       | Inr (existing_prefix, grid_scheme, feature_counter) \<Rightarrow>
           let (ids1, count1) =
                 (if grid_existing_ids existing_prefix = None
                  then (grid_existing_ids(existing_prefix \<mapsto> Map.empty),
                        grid_feature_count(existing_prefix \<mapsto> Map.empty))
                  else (grid_existing_ids, grid_feature_count))
           in (case ids1 existing_prefix of
                 None \<Rightarrow> Inl KeyError
               | Some ids_p \<Rightarrow>
                   let ids_p1 = (if ids_p grid_scheme = None
                                 then ids_p(grid_scheme \<mapsto> {}) else ids_p)
                   in (case ids_p1 grid_scheme of
                         None \<Rightarrow> Inl KeyError
                       | Some codes \<Rightarrow>
                           let ids2 = ids1(existing_prefix \<mapsto>
                                        ids_p1(grid_scheme \<mapsto> insert feature_counter codes))
                           in (case count1 existing_prefix of
                                 None \<Rightarrow> Inl KeyError
                               | Some count_p \<Rightarrow>
                                   let count_p1 = (if count_p grid_scheme = None
                                                   then count_p(grid_scheme \<mapsto> 0) else count_p)
                                   in (case count_p1 grid_scheme of
                                         None \<Rightarrow> Inl KeyError
                                       | Some old \<Rightarrow>
                                           (case decode_counter cs feature_counter of
                                              Inl e \<Rightarrow> Inl e
                                            | Inr d \<Rightarrow>
                                                Inr (count1(existing_prefix \<mapsto>
                                                       count_p1(grid_scheme \<mapsto> max old (d + 1))),
                                                     ids2))))))))"

text \<open>The loop \<open>for idx, row in gdf.iterrows()\<close> of lines 93 to 109.\<close>

fun process_existing ::
  "string \<Rightarrow> feature list \<Rightarrow> feature_count \<times> existing_ids \<Rightarrow> py_error + feature_count \<times> existing_ids" where
  "process_existing cs [] st = Inr st"
| "process_existing cs (row # rows) st =
     (case ReefID row of
        None \<Rightarrow> process_existing cs rows st
      | Some reef_id \<Rightarrow>
          (case register_existing cs reef_id st of
             Inl e \<Rightarrow> Inl e
           | Inr st' \<Rightarrow> process_existing cs rows st'))"

text \<open>
  \<open>grid_schemes = gdf['centroid'].apply(lambda geom: encode_grid(geom.x, geom.y))\<close>:
  one grid code per row, in row order; the first exception ends the run.
\<close>

fun grid_schemes_of :: "string \<Rightarrow> feature list \<Rightarrow> py_error + string list" where
  "grid_schemes_of cs [] = Inr []"
| "grid_schemes_of cs (row # rows) =
     (case encode_grid cs (fst (centroid row)) (snd (centroid row)) of
        Inl e \<Rightarrow> Inl e
      | Inr g \<Rightarrow>
          (case grid_schemes_of cs rows of
             Inl e \<Rightarrow> Inl e
           | Inr gs \<Rightarrow> Inr (g # gs)))"

text \<open>\<open>Series.unique()\<close>: the distinct values in order of first appearance.\<close>

definition unique :: "'a list \<Rightarrow> 'a list" where
  "unique xs = rev (remdups (rev xs))"

text \<open>
  The collision loop of lines 133 to 135:
  \<^verbatim>\<open>
    while grid_scheme in grid_existing_ids[prefix] and
          encoded_counter in grid_existing_ids[prefix][grid_scheme]:
        new_counter += 1
        encoded_counter = encode_counter(new_counter, zero_padding)
  \<close>
\<close>

partial_function (option) skip_existing ::
  "string \<Rightarrow> existing_ids \<Rightarrow> string \<Rightarrow> string \<Rightarrow> int \<Rightarrow> int \<Rightarrow> string
     \<Rightarrow> (py_error + int \<times> string) option" where
  [code]: "skip_existing cs grid_existing_ids prefix grid_scheme zero_padding new_counter encoded_counter =
     (case grid_existing_ids prefix of
        None \<Rightarrow> Some (Inl KeyError)
      | Some ids_p \<Rightarrow>
          (if (case ids_p grid_scheme of None \<Rightarrow> False | Some codes \<Rightarrow> encoded_counter \<in> codes)
           then (case encode_counter cs (new_counter + 1) zero_padding of
                   None \<Rightarrow> None
                 | Some (Inl e) \<Rightarrow> Some (Inl e)
                 | Some (Inr encoded') \<Rightarrow>
                     skip_existing cs grid_existing_ids prefix grid_scheme zero_padding
                       (new_counter + 1) encoded')
           else Some (Inr (new_counter, encoded_counter))))"

text \<open>
  Lines 123 to 135 and 140 for one unlabeled row: the counter that is committed, its code
  and the dictionaries after the commit.
\<close>

definition assign_counter ::
  "string \<Rightarrow> string \<Rightarrow> int \<Rightarrow> string \<Rightarrow> feature_count \<times> existing_ids
     \<Rightarrow> (py_error + int \<times> string \<times> feature_count \<times> existing_ids) option" where
  "assign_counter cs prefix zero_padding grid_scheme st =
     (case st of (grid_feature_count, grid_existing_ids) \<Rightarrow>
        let (count1, ids1) =
              (if grid_feature_count prefix = None
               then (grid_feature_count(prefix \<mapsto> Map.empty),
                     grid_existing_ids(prefix \<mapsto> Map.empty))
               else (grid_feature_count, grid_existing_ids))
        in (case count1 prefix of
              None \<Rightarrow> Some (Inl KeyError)
            | Some count_p \<Rightarrow>
                let count_p1 = (if count_p grid_scheme = None
                                then count_p(grid_scheme \<mapsto> 0) else count_p)
                in (case count_p1 grid_scheme of
                      None \<Rightarrow> Some (Inl KeyError)
                    | Some new_counter \<Rightarrow>
                        (case encode_counter cs new_counter zero_padding of
                           None \<Rightarrow> None
                         | Some (Inl e) \<Rightarrow> Some (Inl e)
                         | Some (Inr encoded_counter) \<Rightarrow>
                             (case skip_existing cs ids1 prefix grid_scheme zero_padding
                                     new_counter encoded_counter of
                                None \<Rightarrow> None
                              | Some (Inl e) \<Rightarrow> Some (Inl e)
                              | Some (Inr (n, enc)) \<Rightarrow>
                                  Some (Inr (n, enc,
                                    count1(prefix \<mapsto> count_p1(grid_scheme \<mapsto> n + 1)),
                                    ids1)))))))"

text \<open>
  The state of the assignment pass: the two dictionaries, the frame, and the list of
  commits in the order of the \<open>print\<close> of line 138, each with its row index, grid code
  and committed counter. The allocator never reads the list.
\<close>

record alloc_state =
  counts :: feature_count
  existing :: existing_ids
  gdf :: "feature list"
  assigned :: "(nat \<times> string \<times> int) list"

definition new_reef_id :: "string \<Rightarrow> string \<Rightarrow> string \<Rightarrow> string" where
  "new_reef_id prefix grid_scheme encoded_counter =
     prefix @ ''-'' @ grid_scheme @ ''-'' @ encoded_counter"

text \<open>The inner loop \<open>for idx, row in sub_gdf.iterrows()\<close> of lines 121 to 140.\<close>

fun assign_rows ::
  "string \<Rightarrow> string \<Rightarrow> int \<Rightarrow> string \<Rightarrow> (nat \<times> feature) list \<Rightarrow> alloc_state
     \<Rightarrow> (py_error + alloc_state) option" where
  "assign_rows cs prefix zero_padding grid_scheme [] st = Some (Inr st)"
| "assign_rows cs prefix zero_padding grid_scheme ((idx, row) # rest) st =
     (if ReefID row = None then
        (case assign_counter cs prefix zero_padding grid_scheme (counts st, existing st) of
           None \<Rightarrow> None
         | Some (Inl e) \<Rightarrow> Some (Inl e)
         | Some (Inr (new_counter, encoded_counter, count', ids')) \<Rightarrow>
             assign_rows cs prefix zero_padding grid_scheme rest
               \<lparr>counts = count', existing = ids',
                gdf = (gdf st)[idx := (gdf st ! idx)
                         \<lparr>ReefID := Some (new_reef_id prefix grid_scheme encoded_counter)\<rparr>],
                assigned = assigned st @ [(idx, grid_scheme, new_counter)]\<rparr>)
      else assign_rows cs prefix zero_padding grid_scheme rest st)"

text \<open>
  \<open>sub_gdf = gdf[grid_schemes == grid_scheme].sort_values(by='centroid_sum')\<close>: the rows
  of the current frame whose grid code is \<open>grid_scheme\<close>, each with its index, sorted by
  centroid sum. \<open>sort_key\<close> is a stable insertion sort: rows with equal sums keep their
  row order.
\<close>

definition sub_gdf :: "string list \<Rightarrow> string \<Rightarrow> feature list \<Rightarrow> (nat \<times> feature) list" where
  "sub_gdf grid_schemes grid_scheme rows =
     sort_key (\<lambda>(idx, row). centroid_sum row)
       (filter (\<lambda>(idx, row). grid_schemes ! idx = grid_scheme)
          (zip [0..<length rows] rows))"

text \<open>The outer loop \<open>for grid_scheme in grid_schemes.unique()\<close> of lines 118 to 140.\<close>

fun assign_groups ::
  "string \<Rightarrow> string \<Rightarrow> int \<Rightarrow> string list \<Rightarrow> string list \<Rightarrow> alloc_state
     \<Rightarrow> (py_error + alloc_state) option" where
  "assign_groups cs prefix zero_padding grid_schemes [] st = Some (Inr st)"
| "assign_groups cs prefix zero_padding grid_schemes (grid_scheme # rest) st =
     (case assign_rows cs prefix zero_padding grid_scheme
             (sub_gdf grid_schemes grid_scheme (gdf st)) st of
        None \<Rightarrow> None
      | Some (Inl e) \<Rightarrow> Some (Inl e)
      | Some (Inr st') \<Rightarrow> assign_groups cs prefix zero_padding grid_schemes rest st')"

text \<open>
  \<open>process_shapefile\<close> from the loaded frame to the final state; \<open>run_allocator\<close> keeps
  the whole state, \<open>process_shapefile\<close> the frame that is saved.
\<close>

definition run_allocator ::
  "string \<Rightarrow> feature list \<Rightarrow> string \<Rightarrow> int \<Rightarrow> (py_error + alloc_state) option" where
  "run_allocator cs rows prefix zero_padding =
     (case process_existing cs rows (Map.empty, Map.empty) of
        Inl e \<Rightarrow> Some (Inl e)
      | Inr (grid_feature_count, grid_existing_ids) \<Rightarrow>
          (case grid_schemes_of cs rows of
             Inl e \<Rightarrow> Some (Inl e)
           | Inr grid_schemes \<Rightarrow>
               assign_groups cs prefix zero_padding grid_schemes (unique grid_schemes)
                 \<lparr>counts = grid_feature_count, existing = grid_existing_ids,
                  gdf = rows, assigned = []\<rparr>))"

definition process_shapefile ::
  "string \<Rightarrow> feature list \<Rightarrow> string \<Rightarrow> int \<Rightarrow> (py_error + feature list) option" where
  "process_shapefile cs rows prefix zero_padding =
     map_option (map_sum id gdf) (run_allocator cs rows prefix zero_padding)"

section \<open>Vocabulary of the proofs\<close>

definition cnt_at :: "feature_count \<Rightarrow> string \<Rightarrow> string \<Rightarrow> int option" where
  "cnt_at m p g = (case m p of None \<Rightarrow> None | Some mp \<Rightarrow> mp g)"

definition nxt :: "feature_count \<Rightarrow> string \<Rightarrow> string \<Rightarrow> int" where
  "nxt m p g = (case cnt_at m p g of None \<Rightarrow> 0 | Some v \<Rightarrow> v)"

definition occ_at :: "existing_ids \<Rightarrow> string \<Rightarrow> string \<Rightarrow> string set" where
  "occ_at m p g = (case m p of None \<Rightarrow> {} | Some mp \<Rightarrow> (case mp g of None \<Rightarrow> {} | Some s \<Rightarrow> s))"

definition parse_ok :: "string \<Rightarrow> string \<Rightarrow> bool" where
  "parse_ok cs reef_id =
     (case split_reef_id reef_id of
        Inl e \<Rightarrow> False
      | Inr (p, g, c) \<Rightarrow> (case decode_counter cs c of Inl e \<Rightarrow> False | Inr d \<Rightarrow> True))"

definition grid_of :: "string \<Rightarrow> feature \<Rightarrow> py_error + string" where
  "grid_of cs row = encode_grid cs (fst (centroid row)) (snd (centroid row))"

definition codes_of :: "feature list \<Rightarrow> string \<Rightarrow> string \<Rightarrow> string set" where
  "codes_of rows p g =
     {c. \<exists>row \<in> set rows. \<exists>rid. ReefID row = Some rid \<and> split_reef_id rid = Inr (p, g, c)}"

definition decs_of :: "string \<Rightarrow> feature list \<Rightarrow> string \<Rightarrow> string \<Rightarrow> int set" where
  "decs_of cs rows p g = {n. \<exists>c \<in> codes_of rows p g. decode_counter cs c = Inr (n - 1)}"

definition is_max :: "int set \<Rightarrow> int \<Rightarrow> bool" where
  "is_max S m = (m \<in> S \<and> (\<forall>x \<in> S. x \<le> m))"

definition all_parse_ok :: "string \<Rightarrow> feature list \<Rightarrow> bool" where
  "all_parse_ok cs rows = (\<forall>row \<in> set rows. \<forall>rid. ReefID row = Some rid \<longrightarrow> parse_ok cs rid)"

definition first_free :: "string \<Rightarrow> int \<Rightarrow> string set \<Rightarrow> int \<Rightarrow> int \<Rightarrow> string \<Rightarrow> bool" where
  "first_free cs zp occ s n enc =
     (s \<le> n \<and> encode_counter cs n zp = Some (Inr enc) \<and> enc \<notin> occ \<and>
      (\<forall>m. s \<le> m \<and> m < n \<longrightarrow> (\<exists>e. encode_counter cs m zp = Some (Inr e) \<and> e \<in> occ)))"

fun chain :: "string \<Rightarrow> int \<Rightarrow> string set \<Rightarrow> int \<Rightarrow> (int \<times> string) list \<Rightarrow> bool" where
  "chain cs zp occ s [] = True"
| "chain cs zp occ s ((n, enc) # ns) = (first_free cs zp occ s n enc \<and> chain cs zp occ (n + 1) ns)"

fun chain_end :: "int \<Rightarrow> (int \<times> string) list \<Rightarrow> int" where
  "chain_end s [] = s"
| "chain_end s ((n, enc) # ns) = chain_end (n + 1) ns"

fun apply_commits :: "string \<Rightarrow> string \<Rightarrow> (nat \<times> int \<times> string) list \<Rightarrow> feature list \<Rightarrow> feature list" where
  "apply_commits prefix g [] rows = rows"
| "apply_commits prefix g ((idx, n, enc) # cm) rows =
     apply_commits prefix g cm (rows[idx := (rows ! idx)\<lparr>ReefID := Some (new_reef_id prefix g enc)\<rparr>])"

definition log_of :: "string \<Rightarrow> (nat \<times> int \<times> string) list \<Rightarrow> (nat \<times> string \<times> int) list" where
  "log_of g cm = map (\<lambda>(idx, n, enc). (idx, g, n)) cm"

definition unl :: "nat \<times> feature \<Rightarrow> bool" where
  "unl ir = (ReefID (snd ir) = None)"

definition commits_of ::
  "string list \<Rightarrow> string \<Rightarrow> feature list \<Rightarrow> (int \<times> string) list \<Rightarrow> (nat \<times> int \<times> string) list" where
  "commits_of gs g rows ns = zip (map fst (filter unl (sub_gdf gs g rows))) ns"

fun upd_row :: "string \<Rightarrow> string \<Rightarrow> (int \<times> string) option \<Rightarrow> feature \<Rightarrow> feature" where
  "upd_row prefix g None row = row"
| "upd_row prefix g (Some (n, enc)) row = row\<lparr>ReefID := Some (new_reef_id prefix g enc)\<rparr>"

definition log_increasing :: "(nat \<times> string \<times> int) list \<Rightarrow> bool" where
  "log_increasing lg =
     sorted_wrt (\<lambda>x y. fst (snd x) = fst (snd y) \<longrightarrow> snd (snd x) < snd (snd y)) lg"

definition the_grid :: "string \<Rightarrow> feature \<Rightarrow> string" where
  "the_grid cs row = (case grid_of cs row of Inl e \<Rightarrow> [] | Inr g \<Rightarrow> g)"

fun reef_ids :: "feature list \<Rightarrow> string list" where
  "reef_ids [] = []"
| "reef_ids (row # rows) =
     (case ReefID row of None \<Rightarrow> reef_ids rows | Some rid \<Rightarrow> rid # reef_ids rows)"

definition ids_unique :: "feature list \<Rightarrow> bool" where
  "ids_unique rows = distinct (reef_ids rows)"

definition tie_free :: "string \<Rightarrow> feature list \<Rightarrow> bool" where
  "tie_free cs rows =
     distinct (map (\<lambda>row. (grid_of cs row, centroid_sum row))
                   (filter (\<lambda>row. ReefID row = None) rows))"

definition sorted_group :: "string \<Rightarrow> feature list \<Rightarrow> string \<Rightarrow> feature list" where
  "sorted_group cs rows g =
     sort_key centroid_sum (filter (\<lambda>row. ReefID row = None \<and> grid_of cs row = Inr g) rows)"

definition group_chain ::
  "string \<Rightarrow> int \<Rightarrow> string \<Rightarrow> feature list \<Rightarrow> string \<Rightarrow> (int \<times> string) list \<Rightarrow> bool" where
  "group_chain cs zp prefix rows g ns =
     (\<exists>s. is_max (insert 0 (decs_of cs rows prefix g)) s \<and>
          chain cs zp (codes_of rows prefix g) s ns \<and>
          length ns = length (sorted_group cs rows g))"

definition assign_row ::
  "string \<Rightarrow> string \<Rightarrow> feature list \<Rightarrow> (string \<Rightarrow> (int \<times> string) list) \<Rightarrow> feature \<Rightarrow> feature" where
  "assign_row cs prefix rows NS row =
     (case ReefID row of
        Some rid \<Rightarrow> row
      | None \<Rightarrow>
          upd_row prefix (the_grid cs row)
            (map_of (zip (sorted_group cs rows (the_grid cs row)) (NS (the_grid cs row))) row) row)"

section \<open>Properties of the codec\<close>

lemma str_index_Some: "str_index cs c = Some i \<Longrightarrow> i < length cs \<and> cs ! i = c"
  by (induction cs arbitrary: i) (auto split: if_splits)

lemma str_index_nth: "distinct cs \<Longrightarrow> i < length cs \<Longrightarrow> str_index cs (cs ! i) = Some i"
proof (induction cs arbitrary: i)
  case Nil
  then show ?case by simp
next
  case (Cons x xs)
  then show ?case by (cases i) auto
qed

lemma str_index_mem: "c \<in> set cs \<Longrightarrow> \<exists>i. str_index cs c = Some i"
  by (induction cs) auto

lemma str_index_hd: "cs \<noteq> [] \<Longrightarrow> str_index cs (cs ! 0) = Some 0"
  by (cases cs) auto

lemma encode_base_str_in_range:
  "0 \<le> v \<Longrightarrow> v < int (length cs) \<Longrightarrow> encode_base_str cs v = Inr (cs ! nat v)"
  by (simp add: encode_base_str_def Let_def)

lemma decode_encode_base_str:
  "distinct cs \<Longrightarrow> encode_base_str cs v = Inr c \<Longrightarrow> 0 \<le> v \<Longrightarrow> decode_base_str cs c = Inr v"
  by (auto simp: encode_base_str_def decode_base_str_def Let_def str_index_nth split: if_splits)

lemma digits_spec:
  assumes run: "encode_counter_digits cs n acc = Some r" and d: "distinct cs"
  shows "\<forall>s. r = Inr s \<longrightarrow> (\<exists>ds. s = ds @ acc \<and> set ds \<subseteq> set cs \<and>
           (\<forall>k rest. decode_counter_from cs k (ds @ rest) =
                      decode_counter_from cs (k * int (length cs) ^ length ds + max n 0) rest))"
proof -
  let ?Q = "\<lambda>cs n acc r. distinct cs \<longrightarrow> (\<forall>s. r = Inr s \<longrightarrow> (\<exists>ds. s = ds @ acc \<and> set ds \<subseteq> set cs \<and>
           (\<forall>k rest. decode_counter_from cs k (ds @ rest) =
                      decode_counter_from cs (k * int (length cs) ^ length ds + max n 0) rest)))"
  have "?Q cs n acc r"
  proof (rule encode_counter_digits.raw_induct[where P = ?Q, OF _ run], intro impI allI)
    fix f cs n acc r s
    assume IH: "\<And>cs n acc r. f cs n acc = Some r \<Longrightarrow> ?Q cs n acc r"
      and body: "(if 0 < n then if length cs = 0 then Some (Inl ZeroDivisionError)
           else case encode_base_str cs (n mod int (length cs)) of
                Inl e \<Rightarrow> Some (Inl e)
                | Inr c \<Rightarrow> f cs (n div int (length cs)) (c # acc)
      else Some (Inr acc)) = Some r"
      and dc: "distinct cs" and r: "r = Inr s"
    show "\<exists>ds. s = ds @ acc \<and> set ds \<subseteq> set cs \<and>
           (\<forall>k rest. decode_counter_from cs k (ds @ rest) =
                      decode_counter_from cs (k * int (length cs) ^ length ds + max n 0) rest)"
    proof (cases "0 < n")
      case False
      with body r have "s = acc" by simp
      with False show ?thesis by (intro exI[of _ "[]"]) simp
    next
      case True
      with body r have B: "length cs \<noteq> 0" by (auto split: if_splits)
      then have Bpos: "0 < int (length cs)" by simp
      let ?B = "int (length cs)"
      have m: "0 \<le> n mod ?B" "n mod ?B < ?B" using Bpos by simp_all
      let ?c = "cs ! nat (n mod ?B)"
      have enc: "encode_base_str cs (n mod ?B) = Inr ?c"
        using m by (rule encode_base_str_in_range)
      with body True B r have rec: "f cs (n div ?B) (?c # acc) = Some (Inr s)" by simp
      from IH[OF rec] dc obtain ds where ds: "s = ds @ ?c # acc" "set ds \<subseteq> set cs"
        and dec: "\<And>k rest. decode_counter_from cs k (ds @ rest) =
                      decode_counter_from cs (k * ?B ^ length ds + max (n div ?B) 0) rest"
        by blast
      have cin: "?c \<in> set cs" using m by simp
      have dcd: "decode_base_str cs ?c = Inr (n mod ?B)"
        using decode_encode_base_str[OF dc enc] m by simp
      have nd: "0 \<le> n div ?B" using True Bpos by (simp add: pos_imp_zdiv_nonneg_iff)
      have "decode_counter_from cs k ((ds @ [?c]) @ rest) =
                      decode_counter_from cs (k * ?B ^ length (ds @ [?c]) + max n 0) rest" for k rest
      proof -
        have "decode_counter_from cs k ((ds @ [?c]) @ rest) = decode_counter_from cs k (ds @ (?c # rest))"
          by simp
        also have "\<dots> = decode_counter_from cs (k * ?B ^ length ds + n div ?B) (?c # rest)"
          using dec nd by simp
        also have "\<dots> = decode_counter_from cs ((k * ?B ^ length ds + n div ?B) * ?B + n mod ?B) rest"
          using dcd by simp
        also have "(k * ?B ^ length ds + n div ?B) * ?B + n mod ?B = k * ?B ^ length (ds @ [?c]) + max n 0"
          using True by (simp add: algebra_simps)
        finally show ?thesis .
      qed
      with ds cin show ?thesis by (intro exI[of _ "ds @ [?c]"]) simp
    qed
  qed
  with d show ?thesis by simp
qed

lemma pad_spec:
  "encode_counter_pad cs enc w = Inr s \<Longrightarrow>
     s = replicate (nat (w - int (length enc))) (cs ! 0) @ enc \<and> (int (length enc) < w \<longrightarrow> cs \<noteq> [])"
proof (induction cs enc w rule: encode_counter_pad.induct)
  case (1 cs enc w)
  show ?case
  proof (cases "int (length enc) < w")
    case False
    with "1.prems" show ?thesis by (simp add: encode_counter_pad.simps[of cs enc w])
  next
    case True
    with "1.prems" have ne: "cs \<noteq> []"
      by (auto simp: encode_counter_pad.simps[of cs enc w] encode_base_str_def split: if_splits)
    then have e: "encode_base_str cs 0 = Inr (cs ! 0)" by (simp add: encode_base_str_def)
    from "1.prems" True e have "encode_counter_pad cs ((cs ! 0) # enc) w = Inr s"
      by (simp add: encode_counter_pad.simps[of cs enc w])
    from "1.IH"[OF True e this] have "s = replicate (nat (w - int (length ((cs ! 0) # enc)))) (cs ! 0) @ (cs ! 0) # enc"
      by simp
    moreover have "nat (w - int (length enc)) = Suc (nat (w - int (length ((cs ! 0) # enc))))"
      using True by simp
    ultimately show ?thesis using ne by (simp add: replicate_app_Cons_same)
  qed
qed

lemma pad_total:
  "cs \<noteq> [] \<Longrightarrow> encode_counter_pad cs enc w = Inr (replicate (nat (w - int (length enc))) (cs ! 0) @ enc)"
proof (induction cs enc w rule: encode_counter_pad.induct)
  case (1 cs enc w)
  show ?case
  proof (cases "int (length enc) < w")
    case False
    then show ?thesis by (simp add: encode_counter_pad.simps[of cs enc w])
  next
    case True
    from "1.prems" have e: "encode_base_str cs 0 = Inr (cs ! 0)" by (simp add: encode_base_str_def)
    have "nat (w - int (length enc)) = Suc (nat (w - int (length ((cs ! 0) # enc))))"
      using True by simp
    then show ?thesis using "1.IH"[OF True e "1.prems"] True e
      by (simp add: replicate_app_Cons_same encode_counter_pad.simps[of cs enc w])
  qed
qed

lemma decode_zero_prefix:
  "cs \<noteq> [] \<Longrightarrow> decode_counter_from cs 0 (replicate p (cs ! 0) @ s) = decode_counter_from cs 0 s"
  by (induction p) (simp_all add: decode_base_str_def str_index_hd)

lemma digits_total:
  "2 \<le> length cs \<Longrightarrow> \<exists>s. encode_counter_digits cs n acc = Some (Inr s)"
proof (induction "nat n" arbitrary: n acc rule: less_induct)
  case less
  show ?case
  proof (cases "0 < n")
    case False
    then show ?thesis by (subst encode_counter_digits.simps) simp
  next
    case True
    let ?B = "int (length cs)"
    have B: "2 \<le> ?B" using less.prems by simp
    have Bpos: "0 < ?B" using less.prems by (cases cs) simp_all
    have m: "0 \<le> n mod ?B" "n mod ?B < ?B"
      using Bpos by (rule pos_mod_sign, rule pos_mod_bound)
    have enc: "encode_base_str cs (n mod ?B) = Inr (cs ! nat (n mod ?B))"
      using m by (rule encode_base_str_in_range)
    have B1: "1 < ?B" using less.prems by arith
    have "n div ?B < n" using True B1 by (rule int_div_less_self)
    moreover have "0 \<le> n div ?B" using True Bpos by (simp add: pos_imp_zdiv_nonneg_iff)
    ultimately have "nat (n div ?B) < nat n" by simp
    from less.hyps[OF this less.prems] obtain s where
      "encode_counter_digits cs (n div ?B) (cs ! nat (n mod ?B) # acc) = Some (Inr s)" by blast
    moreover have "cs \<noteq> []" using less.prems by (cases cs) simp_all
    ultimately show ?thesis using True enc
      by (subst encode_counter_digits.simps) simp
  qed
qed


lemma encode_counter_decode:
  assumes d: "distinct cs" and n: "0 \<le> n" and e: "encode_counter cs n w = Some (Inr s)"
  shows "decode_counter cs s = Inr n"
proof -
  from e obtain ds where run: "encode_counter_digits cs n [] = Some (Inr ds)"
    and pad: "encode_counter_pad cs ds w = Inr s"
    by (auto simp: encode_counter_def split: option.splits sum.splits)
  from digits_spec[OF run d] obtain ds' where "ds = ds' @ []"
    and dec: "\<And>k rest. decode_counter_from cs k (ds' @ rest) =
                      decode_counter_from cs (k * int (length cs) ^ length ds' + max n 0) rest"
    by blast
  then have dd: "decode_counter_from cs 0 ds = Inr n" using dec[of 0 "[]"] n by simp
  from pad_spec[OF pad] have s: "s = replicate (nat (w - int (length ds))) (cs ! 0) @ ds"
    and ne: "int (length ds) < w \<longrightarrow> cs \<noteq> []" by simp_all
  show "decode_counter cs s = Inr n"
  proof (cases "int (length ds) < w")
    case True
    with ne s dd show ?thesis by (simp add: decode_counter_def decode_zero_prefix)
  next
    case False
    with s dd show ?thesis by (simp add: decode_counter_def)
  qed
qed

lemma encode_counter_total:
  assumes B: "2 \<le> length cs"
  shows "\<exists>s. encode_counter cs n w = Some (Inr s)"
proof -
  from B have ne: "cs \<noteq> []" by (cases cs) simp_all
  from digits_total[OF B] obtain ds where "encode_counter_digits cs n [] = Some (Inr ds)" by blast
  then show ?thesis by (simp add: encode_counter_def pad_total[OF ne])
qed

lemma encode_counter_inj:
  assumes "distinct cs" "0 \<le> n" "0 \<le> n'"
    "encode_counter cs n w = Some (Inr e)" "encode_counter cs n' w = Some (Inr e)"
  shows "n = n'"
  using encode_counter_decode[OF assms(1,2,4)] encode_counter_decode[OF assms(1,3,5)] by simp

section \<open>The loop over existing ReefIDs\<close>

lemma split_reef_id_err: "split_reef_id rid = Inl e \<Longrightarrow> e = ValueError"
  by (auto simp: split_reef_id_def split: list.splits)

lemma decode_base_str_err: "decode_base_str cs c = Inl e \<Longrightarrow> e = ValueError"
  by (auto simp: decode_base_str_def split: option.splits)

lemma decode_counter_from_err: "decode_counter_from cs k s = Inl e \<Longrightarrow> e = ValueError"
  by (induction s arbitrary: k) (auto split: sum.splits dest: decode_base_str_err)

lemma decode_counter_err: "decode_counter cs s = Inl e \<Longrightarrow> e = ValueError"
  unfolding decode_counter_def by (rule decode_counter_from_err)

lemma decode_base_str_nonneg: "decode_base_str cs c = Inr d \<Longrightarrow> 0 \<le> d"
  by (auto simp: decode_base_str_def split: option.splits)

lemma decode_counter_from_nonneg: "decode_counter_from cs k s = Inr d \<Longrightarrow> 0 \<le> k \<Longrightarrow> 0 \<le> d"
proof (induction s arbitrary: k)
  case Nil
  then show ?case by simp
next
  case (Cons c s)
  from Cons.prems(1) obtain d0 where d0: "decode_base_str cs c = Inr d0"
    and rec: "decode_counter_from cs (k * int (length cs) + d0) s = Inr d"
    by (auto split: sum.splits)
  have "0 \<le> k * int (length cs) + d0"
    using Cons.prems(2) decode_base_str_nonneg[OF d0] by simp
  from Cons.IH[OF rec this] show ?case .
qed

lemma decode_counter_nonneg: "decode_counter cs s = Inr d \<Longrightarrow> 0 \<le> d"
  unfolding decode_counter_def by (erule decode_counter_from_nonneg) simp

lemma register_existing_bad_split:
  "split_reef_id rid = Inl e \<Longrightarrow> register_existing cs rid st = Inl ValueError"
  by (cases st) (auto simp: register_existing_def dest: split_reef_id_err)

lemma register_existing_ok:
  assumes dm: "dom cnt = dom ex" and sp: "split_reef_id rid = Inr (p, g, c)"
    and dc: "decode_counter cs c = Inr d"
  shows "\<exists>cnt' ex'. register_existing cs rid (cnt, ex) = Inr (cnt', ex') \<and> dom cnt' = dom ex' \<and>
         (\<forall>p' g'. occ_at ex' p' g' = (if p' = p \<and> g' = g then insert c (occ_at ex p g) else occ_at ex p' g')) \<and>
         (\<forall>p' g'. nxt cnt' p' g' = (if p' = p \<and> g' = g then max (nxt cnt p g) (d + 1) else nxt cnt p' g'))"
proof (cases "ex p")
  case None
  with dm have cn: "cnt p = None" by (metis domIff)
  show ?thesis using None cn sp dc dm
    by (auto simp: register_existing_def occ_at_def nxt_def cnt_at_def)
next
  case (Some ep)
  with dm obtain cp where cp: "cnt p = Some cp" by (metis domIff not_Some_eq)
  show ?thesis
  proof (cases "ep g")
    case None
    note eg = this
    show ?thesis
    proof (cases "cp g")
      case None
      show ?thesis using Some cp eg None sp dc dm
        by (auto simp: register_existing_def occ_at_def nxt_def cnt_at_def)
    next
      case (Some v)
      show ?thesis using \<open>ex p = Some ep\<close> cp eg Some sp dc dm
        by (auto simp: register_existing_def occ_at_def nxt_def cnt_at_def)
    qed
  next
    case (Some codes)
    note eg = this
    show ?thesis
    proof (cases "cp g")
      case None
      show ?thesis using \<open>ex p = Some ep\<close> cp eg None sp dc dm
        by (auto simp: register_existing_def occ_at_def nxt_def cnt_at_def)
    next
      case (Some v)
      show ?thesis using \<open>ex p = Some ep\<close> cp eg Some sp dc dm
        by (auto simp: register_existing_def occ_at_def nxt_def cnt_at_def)
    qed
  qed
qed

lemma register_existing_cases:
  assumes dm: "dom cnt = dom ex"
  shows "(\<not> parse_ok cs rid \<and> register_existing cs rid (cnt, ex) = Inl ValueError) \<or>
         (\<exists>p g c d cnt' ex'. split_reef_id rid = Inr (p, g, c) \<and> decode_counter cs c = Inr d \<and> parse_ok cs rid \<and>
            register_existing cs rid (cnt, ex) = Inr (cnt', ex') \<and> dom cnt' = dom ex' \<and>
         (\<forall>p' g'. occ_at ex' p' g' = (if p' = p \<and> g' = g then insert c (occ_at ex p g) else occ_at ex p' g')) \<and>
         (\<forall>p' g'. nxt cnt' p' g' = (if p' = p \<and> g' = g then max (nxt cnt p g) (d + 1) else nxt cnt p' g')))"
proof (cases "split_reef_id rid")
  case (Inl e)
  then show ?thesis by (simp add: parse_ok_def register_existing_bad_split)
next
  case (Inr t)
  obtain p g c where t: "t = (p, g, c)" by (cases t)
  show ?thesis
  proof (cases "decode_counter cs c")
    case (Inl e)
    then have e: "e = ValueError" by (rule decode_counter_err)
    have "register_existing cs rid (cnt, ex) = Inl ValueError"
    proof (cases "ex p")
      case None
      with dm have cn: "cnt p = None" by (metis domIff)
      show ?thesis using None cn Inr t Inl e 
        by (auto simp: register_existing_def)
    next
      case (Some ep)
      with dm obtain cp where cp: "cnt p = Some cp" by (metis domIff not_Some_eq)
      show ?thesis using Some cp Inr t Inl e
        by (auto simp: register_existing_def Let_def)
    qed
    with Inr t Inl show ?thesis by (simp add: parse_ok_def)
  next
    case (Inr d)
    from register_existing_ok[OF dm _ Inr, of rid p g] \<open>split_reef_id rid = Inr t\<close> t Inr
    show ?thesis by (simp add: parse_ok_def)
  qed
qed

lemma is_max_unique: "is_max S m \<Longrightarrow> is_max S m' \<Longrightarrow> m = m'"
  by (auto simp: is_max_def intro: antisym)

lemma codes_of_Cons_None: "ReefID row = None \<Longrightarrow> codes_of (row # rows) p g = codes_of rows p g"
  by (auto simp: codes_of_def)

lemma codes_of_Cons_Some:
  "ReefID row = Some rid \<Longrightarrow> split_reef_id rid = Inr (p0, g0, c0) \<Longrightarrow>
   codes_of (row # rows) p g = (if p = p0 \<and> g = g0 then insert c0 (codes_of rows p g) else codes_of rows p g)"
  by (auto simp: codes_of_def)

lemma decs_of_Cons_None: "ReefID row = None \<Longrightarrow> decs_of cs (row # rows) p g = decs_of cs rows p g"
  by (simp add: decs_of_def codes_of_Cons_None)

lemma decs_of_Cons_Some:
  "ReefID row = Some rid \<Longrightarrow> split_reef_id rid = Inr (p0, g0, c0) \<Longrightarrow> decode_counter cs c0 = Inr d0 \<Longrightarrow>
   decs_of cs (row # rows) p g = (if p = p0 \<and> g = g0 then insert (d0 + 1) (decs_of cs rows p g) else decs_of cs rows p g)"
  by (auto simp: decs_of_def codes_of_Cons_Some)

lemma is_max_insert_max:
  "is_max (insert (max a b) S) m \<Longrightarrow> is_max (insert a (insert b S)) m"
  by (auto simp: is_max_def max_def split: if_splits)

lemma all_parse_ok_Cons:
  "all_parse_ok cs (row # rows) =
     ((case ReefID row of None \<Rightarrow> True | Some rid \<Rightarrow> parse_ok cs rid) \<and> all_parse_ok cs rows)"
  by (auto simp: all_parse_ok_def split: option.splits)

lemma process_existing_fail:
  "dom cnt = dom ex \<Longrightarrow> \<not> all_parse_ok cs rows \<Longrightarrow> process_existing cs rows (cnt, ex) = Inl ValueError"
proof (induction rows arbitrary: cnt ex)
  case Nil
  then show ?case by (simp add: all_parse_ok_def)
next
  case (Cons row rows)
  show ?case
  proof (cases "ReefID row")
    case None
    with Cons show ?thesis by (simp add: all_parse_ok_Cons)
  next
    case (Some rid)
    from register_existing_cases[OF Cons.prems(1), of cs rid]
    show ?thesis
    proof (elim disjE exE conjE)
      assume "register_existing cs rid (cnt, ex) = Inl ValueError"
      with Some show ?thesis by simp
    next
      fix p g c d cnt' ex'
      assume ok: "parse_ok cs rid" and r: "register_existing cs rid (cnt, ex) = Inr (cnt', ex')"
        and dm: "dom cnt' = dom ex'"
      from ok Some Cons.prems(2) have "\<not> all_parse_ok cs rows" by (simp add: all_parse_ok_Cons)
      from Cons.IH[OF dm this] Some r show ?thesis by simp
    qed
  qed
qed

lemma process_existing_total:
  "dom cnt = dom ex \<Longrightarrow> all_parse_ok cs rows \<Longrightarrow> \<exists>st'. process_existing cs rows (cnt, ex) = Inr st'"
proof (induction rows arbitrary: cnt ex)
  case Nil
  then show ?case by simp
next
  case (Cons row rows)
  show ?case
  proof (cases "ReefID row")
    case None
    with Cons show ?thesis by (simp add: all_parse_ok_Cons)
  next
    case (Some rid)
    from register_existing_cases[OF Cons.prems(1), of cs rid]
    show ?thesis
    proof (elim disjE exE conjE)
      assume "\<not> parse_ok cs rid"
      with Some Cons.prems(2) show ?thesis by (simp add: all_parse_ok_Cons)
    next
      fix p g c d cnt' ex'
      assume r: "register_existing cs rid (cnt, ex) = Inr (cnt', ex')"
        and dm: "dom cnt' = dom ex'"
      from Some Cons.prems(2) have "all_parse_ok cs rows" by (simp add: all_parse_ok_Cons)
      from Cons.IH[OF dm this] Some r show ?thesis by simp
    qed
  qed
qed

lemma process_existing_spec:
  "process_existing cs rows (cnt, ex) = Inr (cnt', ex') \<Longrightarrow> dom cnt = dom ex \<Longrightarrow>
     dom cnt' = dom ex' \<and>
     (\<forall>p g. occ_at ex' p g = occ_at ex p g \<union> codes_of rows p g) \<and>
     (\<forall>p g. is_max (insert (nxt cnt p g) (decs_of cs rows p g)) (nxt cnt' p g))"
proof (induction rows arbitrary: cnt ex)
  case Nil
  then show ?case by (simp add: codes_of_def decs_of_def is_max_def)
next
  case (Cons row rows)
  show ?case
  proof (cases "ReefID row")
    case None
    with Cons.prems have "process_existing cs rows (cnt, ex) = Inr (cnt', ex')" by simp
    from Cons.IH[OF this Cons.prems(2)] None show ?thesis
      by (simp add: codes_of_Cons_None decs_of_Cons_None)
  next
    case (Some rid)
    from register_existing_cases[OF Cons.prems(2), of cs rid]
    show ?thesis
    proof (elim disjE exE conjE)
      assume "register_existing cs rid (cnt, ex) = Inl ValueError"
      with Some Cons.prems(1) show ?thesis by simp
    next
      fix p0 g0 c0 d0 cnt1 ex1
      assume sp: "split_reef_id rid = Inr (p0, g0, c0)" and dc: "decode_counter cs c0 = Inr d0"
        and r: "register_existing cs rid (cnt, ex) = Inr (cnt1, ex1)"
        and dm: "dom cnt1 = dom ex1"
        and oc: "\<forall>p' g'. occ_at ex1 p' g' = (if p' = p0 \<and> g' = g0 then insert c0 (occ_at ex p0 g0) else occ_at ex p' g')"
        and nx: "\<forall>p' g'. nxt cnt1 p' g' = (if p' = p0 \<and> g' = g0 then max (nxt cnt p0 g0) (d0 + 1) else nxt cnt p' g')"
      from Some r Cons.prems(1) have "process_existing cs rows (cnt1, ex1) = Inr (cnt', ex')" by simp
      from Cons.IH[OF this dm] have dm': "dom cnt' = dom ex'"
        and oc': "\<And>p g. occ_at ex' p g = occ_at ex1 p g \<union> codes_of rows p g"
        and nx': "\<And>p g. is_max (insert (nxt cnt1 p g) (decs_of cs rows p g)) (nxt cnt' p g)"
        by simp_all
      have "occ_at ex' p g = occ_at ex p g \<union> codes_of (row # rows) p g" for p g
        using oc'[of p g] oc by (auto simp: codes_of_Cons_Some[OF Some sp])
      moreover have "is_max (insert (nxt cnt p g) (decs_of cs (row # rows) p g)) (nxt cnt' p g)" for p g
      proof (cases "p = p0 \<and> g = g0")
        case True
        with nx'[of p g] nx have "is_max (insert (max (nxt cnt p g) (d0 + 1)) (decs_of cs rows p g)) (nxt cnt' p g)"
          by simp
        from is_max_insert_max[OF this] True show ?thesis
          by (simp add: decs_of_Cons_Some[OF Some sp dc])
      next
        case False
        with nx'[of p g] nx show ?thesis
          by (auto simp: decs_of_Cons_Some[OF Some sp dc])
      qed
      ultimately show ?thesis using dm' by blast
    qed
  qed
qed

lemma decs_of_pos: "n \<in> decs_of cs rows p g \<Longrightarrow> 1 \<le> n"
  by (auto simp: decs_of_def dest: decode_counter_nonneg)

lemma codes_of_set_cong: "set rows = set rows' \<Longrightarrow> codes_of rows = codes_of rows'"
  by (simp add: codes_of_def fun_eq_iff)

lemma decs_of_set_cong: "set rows = set rows' \<Longrightarrow> decs_of cs rows = decs_of cs rows'"
  by (simp add: decs_of_def fun_eq_iff codes_of_set_cong[of rows rows'])

lemma all_parse_ok_set_cong: "set rows = set rows' \<Longrightarrow> all_parse_ok cs rows = all_parse_ok cs rows'"
  by (simp add: all_parse_ok_def)

section \<open>Committing one counter\<close>

lemma skip_existing_sound:
  assumes run: "skip_existing cs ex prefix g zp n e = Some r"
  shows "\<forall>n' e'. r = Inr (n', e') \<longrightarrow> encode_counter cs n zp = Some (Inr e) \<longrightarrow>
           first_free cs zp (occ_at ex prefix g) n n' e'"
proof -
  let ?Q = "\<lambda>cs ex prefix g zp n e r. \<forall>n' e'. r = Inr (n', e') \<longrightarrow> encode_counter cs n zp = Some (Inr e) \<longrightarrow>
           first_free cs zp (occ_at ex prefix g) n n' e'"
  show ?thesis
  proof (rule skip_existing.raw_induct[where P = ?Q, OF _ run], intro allI impI)
    fix f cs ex prefix g zp n e r n' e'
    assume IH: "\<And>cs ex prefix g zp n e r. f cs ex prefix g zp n e = Some r \<Longrightarrow> ?Q cs ex prefix g zp n e r"
      and body: "(case ex prefix of None \<Rightarrow> Some (Inl KeyError)
        | Some ids_p \<Rightarrow>
            if case ids_p g of None \<Rightarrow> False | Some codes \<Rightarrow> e \<in> codes
            then case encode_counter cs (n + 1) zp of None \<Rightarrow> None
                 | Some (Inl e) \<Rightarrow> Some (Inl e)
                 | Some (Inr encoded') \<Rightarrow> f cs ex prefix g zp (n + 1) encoded'
            else Some (Inr (n, e))) = Some r"
      and r: "r = Inr (n', e')" and enc: "encode_counter cs n zp = Some (Inr e)"
    from body r obtain ids_p where ip: "ex prefix = Some ids_p" by (auto split: option.splits)
    have mem: "(case ids_p g of None \<Rightarrow> False | Some codes \<Rightarrow> e \<in> codes) = (e \<in> occ_at ex prefix g)"
      using ip by (auto simp: occ_at_def split: option.splits)
    show "first_free cs zp (occ_at ex prefix g) n n' e'"
    proof (cases "e \<in> occ_at ex prefix g")
      case False
      with body ip mem r have "n' = n" "e' = e" by auto
      with False enc show ?thesis by (auto simp: first_free_def)
    next
      case True
      with body ip mem r obtain e2 where e2: "encode_counter cs (n + 1) zp = Some (Inr e2)"
        and rec: "f cs ex prefix g zp (n + 1) e2 = Some (Inr (n', e'))"
        by (auto split: option.splits sum.splits)
      from IH[OF rec] e2 have ff: "first_free cs zp (occ_at ex prefix g) (n + 1) n' e'" by blast
      show ?thesis unfolding first_free_def
      proof (intro conjI allI impI)
        show "n \<le> n'" using ff by (simp add: first_free_def)
        show "encode_counter cs n' zp = Some (Inr e')" using ff by (simp add: first_free_def)
        show "e' \<notin> occ_at ex prefix g" using ff by (simp add: first_free_def)
      next
        fix m assume m: "n \<le> m \<and> m < n'"
        show "\<exists>e. encode_counter cs m zp = Some (Inr e) \<and> e \<in> occ_at ex prefix g"
        proof (cases "m = n")
          case True
          with enc \<open>e \<in> occ_at ex prefix g\<close> show ?thesis by blast
        next
          case False
          with m have "n + 1 \<le> m \<and> m < n'" by simp
          with ff show ?thesis unfolding first_free_def by blast
        qed
      qed
    qed
  qed
qed

lemma skip_existing_complete:
  assumes "first_free cs zp (occ_at ex prefix g) n n' e'" "encode_counter cs n zp = Some (Inr e)"
    "ex prefix = Some ids_p"
  shows "skip_existing cs ex prefix g zp n e = Some (Inr (n', e'))"
  using assms
proof (induction "nat (n' - n)" arbitrary: n e)
  case 0
  then have "n' = n" by (simp add: first_free_def)
  with 0 have "e = e'" "e \<notin> occ_at ex prefix g" by (simp_all add: first_free_def)
  then have "\<not> (case ids_p g of None \<Rightarrow> False | Some codes \<Rightarrow> e \<in> codes)"
    using \<open>ex prefix = Some ids_p\<close> by (auto simp: occ_at_def split: option.splits)
  then show ?case using \<open>ex prefix = Some ids_p\<close> \<open>n' = n\<close> \<open>e = e'\<close>
    by (subst skip_existing.simps) simp
next
  case (Suc k)
  then have lt: "n < n'" by simp
  from Suc.prems(1) lt obtain e0 where "encode_counter cs n zp = Some (Inr e0)" "e0 \<in> occ_at ex prefix g"
    unfolding first_free_def by (metis order_refl)
  with Suc.prems(2) have emem: "e \<in> occ_at ex prefix g" by simp
  then have c: "(case ids_p g of None \<Rightarrow> False | Some codes \<Rightarrow> e \<in> codes)"
    using \<open>ex prefix = Some ids_p\<close> by (auto simp: occ_at_def split: option.splits)
  have "\<exists>e2. encode_counter cs (n + 1) zp = Some (Inr e2)"
  proof (cases "n + 1 = n'")
    case True
    with Suc.prems(1) show ?thesis by (auto simp: first_free_def)
  next
    case False
    with lt have "n \<le> n + 1 \<and> n + 1 < n'" by simp
    with Suc.prems(1) show ?thesis unfolding first_free_def by blast
  qed
  then obtain e2 where e2: "encode_counter cs (n + 1) zp = Some (Inr e2)" by blast
  have ff: "first_free cs zp (occ_at ex prefix g) (n + 1) n' e'"
    using Suc.prems(1) lt unfolding first_free_def by auto
  have k: "k = nat (n' - (n + 1))" using Suc.hyps(2) by simp
  from Suc.hyps(1)[OF k ff e2 Suc.prems(3)]
  have "skip_existing cs ex prefix g zp (n + 1) e2 = Some (Inr (n', e'))" .
  then show ?case using \<open>ex prefix = Some ids_p\<close> c e2
    by (subst skip_existing.simps) simp
qed

lemma first_free_unique:
  assumes "first_free cs zp occ s n e" "first_free cs zp occ s n' e'"
  shows "n = n' \<and> e = e'"
proof -
  have "\<not> n < n'"
  proof
    assume "n < n'"
    with assms have "\<exists>x. encode_counter cs n zp = Some (Inr x) \<and> x \<in> occ"
      unfolding first_free_def by blast
    with assms(1) show False by (auto simp: first_free_def)
  qed
  moreover have "\<not> n' < n"
  proof
    assume "n' < n"
    with assms have "\<exists>x. encode_counter cs n' zp = Some (Inr x) \<and> x \<in> occ"
      unfolding first_free_def by blast
    with assms(2) show False by (auto simp: first_free_def)
  qed
  ultimately have "n = n'" by simp
  with assms show ?thesis by (simp add: first_free_def)
qed

lemma assign_counter_prelude:
  assumes dm: "dom cnt = dom ex"
  obtains count1 ids1 count_p1 ids_p where
    "assign_counter cs prefix zp g (cnt, ex) =
       (case encode_counter cs (nxt cnt prefix g) zp of
          None \<Rightarrow> None
        | Some (Inl e) \<Rightarrow> Some (Inl e)
        | Some (Inr encoded_counter) \<Rightarrow>
            (case skip_existing cs ids1 prefix g zp (nxt cnt prefix g) encoded_counter of
               None \<Rightarrow> None
             | Some (Inl e) \<Rightarrow> Some (Inl e)
             | Some (Inr (n, enc)) \<Rightarrow>
                 Some (Inr (n, enc, count1(prefix \<mapsto> count_p1(g \<mapsto> n + 1)), ids1))))"
    "ids1 prefix = Some ids_p" "dom count1 = dom ids1" "count1 prefix \<noteq> None"
    "\<And>p' g'. occ_at ids1 p' g' = occ_at ex p' g'"
    "\<And>n p' g'. nxt (count1(prefix \<mapsto> count_p1(g \<mapsto> n))) p' g' =
         (if p' = prefix \<and> g' = g then n else nxt cnt p' g')"
proof (cases "cnt prefix")
  case None
  with dm have en: "ex prefix = None" by (metis domIff)
  show ?thesis
  proof (rule that[of "cnt(prefix \<mapsto> Map.empty)" "Map.empty(g \<mapsto> 0)" "ex(prefix \<mapsto> Map.empty)" Map.empty])
    show "assign_counter cs prefix zp g (cnt, ex) =
       (case encode_counter cs (nxt cnt prefix g) zp of
          None \<Rightarrow> None
        | Some (Inl e) \<Rightarrow> Some (Inl e)
        | Some (Inr encoded_counter) \<Rightarrow>
            (case skip_existing cs (ex(prefix \<mapsto> Map.empty)) prefix g zp (nxt cnt prefix g) encoded_counter of
               None \<Rightarrow> None
             | Some (Inl e) \<Rightarrow> Some (Inl e)
             | Some (Inr (n, enc)) \<Rightarrow>
                 Some (Inr (n, enc, (cnt(prefix \<mapsto> Map.empty))(prefix \<mapsto> (Map.empty(g \<mapsto> 0))(g \<mapsto> n + 1)), ex(prefix \<mapsto> Map.empty)))))"
    proof -
      have nx0: "nxt cnt prefix g = 0" using None by (simp add: nxt_def cnt_at_def)
      show ?thesis unfolding nx0 using None by (simp add: assign_counter_def)
    qed
    show "(ex(prefix \<mapsto> Map.empty)) prefix = Some Map.empty" by simp
    show "dom (cnt(prefix \<mapsto> Map.empty)) = dom (ex(prefix \<mapsto> Map.empty))" using dm by simp
    show "(cnt(prefix \<mapsto> Map.empty)) prefix \<noteq> None" by simp
    show "occ_at (ex(prefix \<mapsto> Map.empty)) p' g' = occ_at ex p' g'" for p' g'
      using en by (simp add: occ_at_def)
    show "nxt ((cnt(prefix \<mapsto> Map.empty))(prefix \<mapsto> (Map.empty(g \<mapsto> 0))(g \<mapsto> n))) p' g' =
         (if p' = prefix \<and> g' = g then n else nxt cnt p' g')" for n p' g'
      using None by (simp add: nxt_def cnt_at_def)
  qed
next
  case (Some cp)
  with dm obtain ep where ep: "ex prefix = Some ep" by (metis domIff not_Some_eq)
  show ?thesis
  proof (cases "cp g")
    case None
    show ?thesis
    proof (rule that[of cnt "cp(g \<mapsto> 0)" ex ep])
      show "assign_counter cs prefix zp g (cnt, ex) =
       (case encode_counter cs (nxt cnt prefix g) zp of
          None \<Rightarrow> None
        | Some (Inl e) \<Rightarrow> Some (Inl e)
        | Some (Inr encoded_counter) \<Rightarrow>
            (case skip_existing cs ex prefix g zp (nxt cnt prefix g) encoded_counter of
               None \<Rightarrow> None
             | Some (Inl e) \<Rightarrow> Some (Inl e)
             | Some (Inr (n, enc)) \<Rightarrow>
                 Some (Inr (n, enc, cnt(prefix \<mapsto> (cp(g \<mapsto> 0))(g \<mapsto> n + 1)), ex))))"
      proof -
        have nx0: "nxt cnt prefix g = 0" using Some None by (simp add: nxt_def cnt_at_def)
        show ?thesis unfolding nx0 using Some None by (simp add: assign_counter_def)
      qed
      show "ex prefix = Some ep" by (rule ep)
      show "dom cnt = dom ex" by (rule dm)
      show "cnt prefix \<noteq> None" using Some by simp
      show "occ_at ex p' g' = occ_at ex p' g'" for p' g' by simp
      show "nxt (cnt(prefix \<mapsto> (cp(g \<mapsto> 0))(g \<mapsto> n))) p' g' =
         (if p' = prefix \<and> g' = g then n else nxt cnt p' g')" for n p' g'
        using Some by (simp add: nxt_def cnt_at_def)
    qed
  next
    case (Some v)
    show ?thesis
    proof (rule that[of cnt cp ex ep])
      show "assign_counter cs prefix zp g (cnt, ex) =
       (case encode_counter cs (nxt cnt prefix g) zp of
          None \<Rightarrow> None
        | Some (Inl e) \<Rightarrow> Some (Inl e)
        | Some (Inr encoded_counter) \<Rightarrow>
            (case skip_existing cs ex prefix g zp (nxt cnt prefix g) encoded_counter of
               None \<Rightarrow> None
             | Some (Inl e) \<Rightarrow> Some (Inl e)
             | Some (Inr (n, enc)) \<Rightarrow>
                 Some (Inr (n, enc, cnt(prefix \<mapsto> cp(g \<mapsto> n + 1)), ex))))"
      proof -
        have nx0: "nxt cnt prefix g = v" using \<open>cnt prefix = Some cp\<close> Some by (simp add: nxt_def cnt_at_def)
        show ?thesis unfolding nx0 using \<open>cnt prefix = Some cp\<close> Some by (simp add: assign_counter_def)
      qed
      show "ex prefix = Some ep" by (rule ep)
      show "dom cnt = dom ex" by (rule dm)
      show "cnt prefix \<noteq> None" using \<open>cnt prefix = Some cp\<close> by simp
      show "occ_at ex p' g' = occ_at ex p' g'" for p' g' by simp
      show "nxt (cnt(prefix \<mapsto> cp(g \<mapsto> n))) p' g' =
         (if p' = prefix \<and> g' = g then n else nxt cnt p' g')" for n p' g'
        using \<open>cnt prefix = Some cp\<close> by (simp add: nxt_def cnt_at_def)
    qed
  qed
qed

lemma assign_counter_sound:
  assumes run: "assign_counter cs prefix zp g (cnt, ex) = Some (Inr (n, enc, cnt', ex'))"
    and dm: "dom cnt = dom ex"
  shows "first_free cs zp (occ_at ex prefix g) (nxt cnt prefix g) n enc \<and> dom cnt' = dom ex' \<and>
         (\<forall>p' g'. occ_at ex' p' g' = occ_at ex p' g') \<and>
         (\<forall>p' g'. nxt cnt' p' g' = (if p' = prefix \<and> g' = g then n + 1 else nxt cnt p' g'))"
proof (rule assign_counter_prelude[OF dm, where cs = cs and prefix = prefix and zp = zp and g = g])
  fix count1 ids1 count_p1 ids_p
  assume eq: "assign_counter cs prefix zp g (cnt, ex) =
       (case encode_counter cs (nxt cnt prefix g) zp of
          None \<Rightarrow> None
        | Some (Inl e) \<Rightarrow> Some (Inl e)
        | Some (Inr encoded_counter) \<Rightarrow>
            (case skip_existing cs ids1 prefix g zp (nxt cnt prefix g) encoded_counter of
               None \<Rightarrow> None
             | Some (Inl e) \<Rightarrow> Some (Inl e)
             | Some (Inr (n, enc)) \<Rightarrow>
                 Some (Inr (n, enc, count1(prefix \<mapsto> count_p1(g \<mapsto> n + 1)), ids1))))"
    and ip: "ids1 prefix = Some ids_p" and d1: "dom count1 = dom ids1" and c1: "count1 prefix \<noteq> None"
    and oc: "\<And>p' g'. occ_at ids1 p' g' = occ_at ex p' g'"
    and nx: "\<And>n p' g'. nxt (count1(prefix \<mapsto> count_p1(g \<mapsto> n))) p' g' =
         (if p' = prefix \<and> g' = g then n else nxt cnt p' g')"
  from run eq obtain e0 where e0: "encode_counter cs (nxt cnt prefix g) zp = Some (Inr e0)"
    and sk: "skip_existing cs ids1 prefix g zp (nxt cnt prefix g) e0 = Some (Inr (n, enc))"
    and c': "cnt' = count1(prefix \<mapsto> count_p1(g \<mapsto> n + 1))" and e': "ex' = ids1"
    by (auto split: option.splits sum.splits)
  from skip_existing_sound[OF sk] e0 have "first_free cs zp (occ_at ids1 prefix g) (nxt cnt prefix g) n enc"
    by blast
  then have "first_free cs zp (occ_at ex prefix g) (nxt cnt prefix g) n enc" by (simp add: oc)
  moreover have "dom cnt' = dom ex'" using c' e' d1 c1 by auto
  ultimately show ?thesis using c' e' oc nx by simp
qed

lemma assign_counter_complete:
  assumes ff: "first_free cs zp (occ_at ex prefix g) (nxt cnt prefix g) n enc"
    and dm: "dom cnt = dom ex"
  shows "\<exists>cnt' ex'. assign_counter cs prefix zp g (cnt, ex) = Some (Inr (n, enc, cnt', ex'))"
proof (rule assign_counter_prelude[OF dm, where cs = cs and prefix = prefix and zp = zp and g = g])
  fix count1 ids1 count_p1 ids_p
  assume eq: "assign_counter cs prefix zp g (cnt, ex) =
       (case encode_counter cs (nxt cnt prefix g) zp of
          None \<Rightarrow> None
        | Some (Inl e) \<Rightarrow> Some (Inl e)
        | Some (Inr encoded_counter) \<Rightarrow>
            (case skip_existing cs ids1 prefix g zp (nxt cnt prefix g) encoded_counter of
               None \<Rightarrow> None
             | Some (Inl e) \<Rightarrow> Some (Inl e)
             | Some (Inr (n, enc)) \<Rightarrow>
                 Some (Inr (n, enc, count1(prefix \<mapsto> count_p1(g \<mapsto> n + 1)), ids1))))"
    and ip: "ids1 prefix = Some ids_p"
    and oc: "\<And>p' g'. occ_at ids1 p' g' = occ_at ex p' g'"
  have "\<exists>e0. encode_counter cs (nxt cnt prefix g) zp = Some (Inr e0)"
  proof (cases "nxt cnt prefix g = n")
    case True
    with ff show ?thesis by (auto simp: first_free_def)
  next
    case False
    with ff have "nxt cnt prefix g \<le> nxt cnt prefix g \<and> nxt cnt prefix g < n" by (simp add: first_free_def)
    with ff show ?thesis unfolding first_free_def by blast
  qed
  then obtain e0 where e0: "encode_counter cs (nxt cnt prefix g) zp = Some (Inr e0)" by blast
  from ff have "first_free cs zp (occ_at ids1 prefix g) (nxt cnt prefix g) n enc" by (simp add: oc)
  from skip_existing_complete[OF this e0 ip]
  have "skip_existing cs ids1 prefix g zp (nxt cnt prefix g) e0 = Some (Inr (n, enc))" .
  with eq e0 show ?thesis by simp
qed

section \<open>The loop over the rows of one grid cell\<close>

lemma unl_pair: "unl (idx, row) = (ReefID row = None)"
  by (simp add: unl_def)

lemma assign_rows_sound:
  assumes "assign_rows cs prefix zp g sub st = Some (Inr st')" "dom (counts st) = dom (existing st)"
  shows "\<exists>ns. chain cs zp (occ_at (existing st) prefix g) (nxt (counts st) prefix g) ns \<and>
       length ns = length (filter unl sub) \<and>
       gdf st' = apply_commits prefix g (zip (map fst (filter unl sub)) ns) (gdf st) \<and>
       assigned st' = assigned st @ log_of g (zip (map fst (filter unl sub)) ns) \<and>
       dom (counts st') = dom (existing st') \<and>
       (\<forall>p' g'. occ_at (existing st') p' g' = occ_at (existing st) p' g') \<and>
       (\<forall>p' g'. nxt (counts st') p' g' =
           (if p' = prefix \<and> g' = g then chain_end (nxt (counts st) prefix g) ns
            else nxt (counts st) p' g'))"
  using assms
proof (induction sub arbitrary: st)
  case Nil
  then have "st' = st" by simp
  with Nil.prems(2) show ?case by (intro exI[of _ "[]"]) (simp add: log_of_def)
next
  case (Cons ir sub)
  obtain idx row where ir: "ir = (idx, row)" by (cases ir)
  show ?case
  proof (cases "ReefID row = None")
    case False
    then obtain rid where rid: "ReefID row = Some rid" by auto
    with Cons.prems ir have "assign_rows cs prefix zp g sub st = Some (Inr st')" by simp
    from Cons.IH[OF this Cons.prems(2)] rid ir show ?thesis by (simp add: unl_pair)
  next
    case True
    with Cons.prems(1) ir obtain n enc cnt1 ex1 where
      ac: "assign_counter cs prefix zp g (counts st, existing st) = Some (Inr (n, enc, cnt1, ex1))"
      by (auto split: option.splits sum.splits)
    let ?st1 = "\<lparr>counts = cnt1, existing = ex1,
                gdf = (gdf st)[idx := (gdf st ! idx)\<lparr>ReefID := Some (new_reef_id prefix g enc)\<rparr>],
                assigned = assigned st @ [(idx, g, n)]\<rparr>"
    from Cons.prems(1) ir True ac have rec: "assign_rows cs prefix zp g sub ?st1 = Some (Inr st')"
      by simp
    from assign_counter_sound[OF ac Cons.prems(2)]
    have ff: "first_free cs zp (occ_at (existing st) prefix g) (nxt (counts st) prefix g) n enc"
      and dm1: "dom cnt1 = dom ex1"
      and oc1: "\<And>p' g'. occ_at ex1 p' g' = occ_at (existing st) p' g'"
      and nx1: "\<And>p' g'. nxt cnt1 p' g' = (if p' = prefix \<and> g' = g then n + 1 else nxt (counts st) p' g')"
      by simp_all
    have dm1': "dom (counts ?st1) = dom (existing ?st1)" using dm1 by simp
    from Cons.IH[OF rec dm1'] obtain ns where
      ch: "chain cs zp (occ_at ex1 prefix g) (nxt cnt1 prefix g) ns"
      and len: "length ns = length (filter unl sub)"
      and gd: "gdf st' = apply_commits prefix g (zip (map fst (filter unl sub)) ns)
                 ((gdf st)[idx := (gdf st ! idx)\<lparr>ReefID := Some (new_reef_id prefix g enc)\<rparr>])"
      and lg: "assigned st' = (assigned st @ [(idx, g, n)]) @ log_of g (zip (map fst (filter unl sub)) ns)"
      and dm': "dom (counts st') = dom (existing st')"
      and oc': "\<And>p' g'. occ_at (existing st') p' g' = occ_at ex1 p' g'"
      and nx': "\<And>p' g'. nxt (counts st') p' g' =
           (if p' = prefix \<and> g' = g then chain_end (nxt cnt1 prefix g) ns else nxt cnt1 p' g')"
      by auto
    have u: "filter unl (ir # sub) = ir # filter unl sub" using True ir by (simp add: unl_pair)
    show ?thesis
    proof (intro exI[of _ "(n, enc) # ns"] conjI allI)
      show "chain cs zp (occ_at (existing st) prefix g) (nxt (counts st) prefix g) ((n, enc) # ns)"
        using ff ch oc1 nx1 by simp
      show "length ((n, enc) # ns) = length (filter unl (ir # sub))" using len u by simp
      show "gdf st' = apply_commits prefix g (zip (map fst (filter unl (ir # sub))) ((n, enc) # ns)) (gdf st)"
        using gd u ir by simp
      show "assigned st' = assigned st @ log_of g (zip (map fst (filter unl (ir # sub))) ((n, enc) # ns))"
        using lg u ir by (simp add: log_of_def)
      show "dom (counts st') = dom (existing st')" by (rule dm')
      show "occ_at (existing st') p' g' = occ_at (existing st) p' g'" for p' g'
        using oc' oc1 by simp
      show "nxt (counts st') p' g' =
           (if p' = prefix \<and> g' = g then chain_end (nxt (counts st) prefix g) ((n, enc) # ns)
            else nxt (counts st) p' g')" for p' g'
        using nx'[of p' g'] nx1 by simp
    qed
  qed
qed

lemma assign_rows_complete:
  assumes "chain cs zp (occ_at (existing st) prefix g) (nxt (counts st) prefix g) ns"
    "length ns = length (filter unl sub)" "dom (counts st) = dom (existing st)"
  shows "\<exists>st'. assign_rows cs prefix zp g sub st = Some (Inr st')"
  using assms
proof (induction sub arbitrary: st ns)
  case Nil
  then show ?case by simp
next
  case (Cons ir sub)
  obtain idx row where ir: "ir = (idx, row)" by (cases ir)
  show ?case
  proof (cases "ReefID row = None")
    case False
    then obtain rid where rid: "ReefID row = Some rid" by auto
    with Cons.prems ir have "length ns = length (filter unl sub)" by (simp add: unl_pair)
    from Cons.IH[OF Cons.prems(1) this Cons.prems(3)] rid ir show ?thesis by simp
  next
    case True
    then have u: "filter unl (ir # sub) = ir # filter unl sub" using ir by (simp add: unl_pair)
    with Cons.prems(2) obtain n enc ns' where ns: "ns = (n, enc) # ns'"
      by (cases ns) auto
    from Cons.prems(1) ns
    have ff: "first_free cs zp (occ_at (existing st) prefix g) (nxt (counts st) prefix g) n enc"
      and ch: "chain cs zp (occ_at (existing st) prefix g) (n + 1) ns'" by simp_all
    from assign_counter_complete[OF ff Cons.prems(3)] obtain cnt1 ex1 where
      ac: "assign_counter cs prefix zp g (counts st, existing st) = Some (Inr (n, enc, cnt1, ex1))"
      by blast
    from assign_counter_sound[OF ac Cons.prems(3)]
    have dm1: "dom cnt1 = dom ex1"
      and oc1: "\<And>p' g'. occ_at ex1 p' g' = occ_at (existing st) p' g'"
      and nx1: "\<And>p' g'. nxt cnt1 p' g' = (if p' = prefix \<and> g' = g then n + 1 else nxt (counts st) p' g')"
      by simp_all
    let ?st1 = "\<lparr>counts = cnt1, existing = ex1,
                gdf = (gdf st)[idx := (gdf st ! idx)\<lparr>ReefID := Some (new_reef_id prefix g enc)\<rparr>],
                assigned = assigned st @ [(idx, g, n)]\<rparr>"
    have ch1: "chain cs zp (occ_at (existing ?st1) prefix g) (nxt (counts ?st1) prefix g) ns'"
      using ch oc1 nx1 by simp
    have len1: "length ns' = length (filter unl sub)" using Cons.prems(2) u ns by simp
    have dm1': "dom (counts ?st1) = dom (existing ?st1)" using dm1 by simp
    from Cons.IH[OF ch1 len1 dm1'] obtain st' where
      "assign_rows cs prefix zp g sub ?st1 = Some (Inr st')" by blast
    with ac True ir show ?thesis by simp
  qed
qed

lemma chain_unique:
  "chain cs zp occ s ns \<Longrightarrow> chain cs zp occ s ns' \<Longrightarrow> length ns = length ns' \<Longrightarrow> ns = ns'"
proof (induction ns arbitrary: s ns')
  case Nil
  then show ?case by simp
next
  case (Cons a ns)
  obtain n e where a: "a = (n, e)" by (cases a)
  from Cons.prems(3) obtain b ns2 where ns': "ns' = b # ns2" by (cases ns') auto
  obtain n' e' where b: "b = (n', e')" by (cases b)
  from Cons.prems a b ns' have ff: "first_free cs zp occ s n e" "first_free cs zp occ s n' e'"
    and ch: "chain cs zp occ (n + 1) ns" "chain cs zp occ (n' + 1) ns2" by simp_all
  from first_free_unique[OF ff] have eq: "n = n'" "e = e'" by simp_all
  with ch Cons.prems(3) ns' Cons.IH[of "n + 1" ns2] have "ns = ns2" by simp
  with eq a b ns' show ?case by simp
qed

lemma chain_mono:
  "chain cs zp occ s ns \<Longrightarrow> (n, e) \<in> set ns \<Longrightarrow>
     s \<le> n \<and> n < chain_end s ns \<and> encode_counter cs n zp = Some (Inr e) \<and> e \<notin> occ"
proof (induction ns arbitrary: s)
  case Nil
  then show ?case by simp
next
  case (Cons a ns)
  obtain n0 e0 where a: "a = (n0, e0)" by (cases a)
  from Cons.prems a have ff: "first_free cs zp occ s n0 e0" and ch: "chain cs zp occ (n0 + 1) ns"
    by simp_all
  have ge: "s \<le> chain_end s ms" if "chain cs zp occ s ms" for s ms
    using that
  proof (induction ms arbitrary: s)
    case Nil
    then show ?case by simp
  next
    case (Cons b ms)
    obtain n1 e1 where b: "b = (n1, e1)" by (cases b)
    from Cons.prems b have "s \<le> n1" "chain cs zp occ (n1 + 1) ms" by (simp_all add: first_free_def)
    with Cons.IH[of "n1 + 1"] b show ?case by simp
  qed
  show ?case
  proof (cases "(n, e) = (n0, e0)")
    case True
    with ff ge[OF ch] a show ?thesis by (simp add: first_free_def)
  next
    case False
    with Cons.prems(2) a have "(n, e) \<in> set ns" by auto
    from Cons.IH[OF ch this] ff a show ?thesis by (simp add: first_free_def)
  qed
qed

lemma chain_sorted:
  "chain cs zp occ s ns \<Longrightarrow> i < j \<Longrightarrow> j < length ns \<Longrightarrow> fst (ns ! i) < fst (ns ! j)"
proof (induction ns arbitrary: s i j)
  case Nil
  then show ?case by simp
next
  case (Cons a ns)
  obtain n0 e0 where a: "a = (n0, e0)" by (cases a)
  from Cons.prems a have ch: "chain cs zp occ (n0 + 1) ns" by simp
  from Cons.prems obtain j' where j: "j = Suc j'" by (cases j) auto
  show ?case
  proof (cases i)
    case 0
    have "ns ! j' \<in> set ns" using Cons.prems j by simp
    then have "(fst (ns ! j'), snd (ns ! j')) \<in> set ns" by simp
    from chain_mono[OF ch this] have "n0 + 1 \<le> fst (ns ! j')" by simp
    with 0 j a show ?thesis by simp
  next
    case (Suc i')
    with Cons.prems j Cons.IH[OF ch, of i' j'] show ?thesis by simp
  qed
qed

section \<open>The loop over the grid cells\<close>

lemma zip_upt_map: "zip [0..<length rows] rows = map (\<lambda>i. (i, rows ! i)) [0..<length rows]"
  by (intro nth_equalityI) simp_all

lemma sub_gdf_alt:
  "sub_gdf gs g rows =
     sort_key (\<lambda>(idx, row). centroid_sum row)
       (map (\<lambda>i. (i, rows ! i)) (filter (\<lambda>i. gs ! i = g) [0..<length rows]))"
  by (simp add: sub_gdf_def zip_upt_map filter_map comp_def)

lemma set_sub_gdf:
  "set (sub_gdf gs g rows) = {(i, rows ! i) | i. i < length rows \<and> gs ! i = g}"
  by (auto simp: sub_gdf_alt)

lemma distinct_fst_sub_gdf: "distinct (map fst (sub_gdf gs g rows))"
proof -
  let ?l = "map (\<lambda>i. (i, rows ! i)) (filter (\<lambda>i. gs ! i = g) [0..<length rows])"
  have m: "mset (sub_gdf gs g rows) = mset ?l"
    unfolding sub_gdf_alt by (rule mset_sort)
  have "mset (map fst (sub_gdf gs g rows)) = mset (map fst ?l)"
    using m by (metis mset_map)
  moreover have "distinct (map fst ?l)" by (simp add: comp_def)
  ultimately show ?thesis by (metis mset_eq_imp_distinct_iff)
qed

lemma distinct_fst_filter: "distinct (map fst xs) \<Longrightarrow> distinct (map fst (filter P xs))"
  by (induction xs) auto

lemma distinct_fst_unl_sub_gdf: "distinct (map fst (filter unl (sub_gdf gs g rows)))"
  by (rule distinct_fst_filter[OF distinct_fst_sub_gdf])

lemma set_fst_unl_sub_gdf:
  "set (map fst (filter unl (sub_gdf gs g rows))) =
     {i. i < length rows \<and> gs ! i = g \<and> ReefID (rows ! i) = None}"
  by (auto simp: set_sub_gdf unl_def image_iff)

lemma sub_gdf_cong:
  assumes "length rows = length rows'" "\<forall>i<length rows. gs ! i = g \<longrightarrow> rows ! i = rows' ! i"
  shows "sub_gdf gs g rows = sub_gdf gs g rows'"
proof -
  have "map (\<lambda>i. (i, rows ! i)) (filter (\<lambda>i. gs ! i = g) [0..<length rows]) =
        map (\<lambda>i. (i, rows' ! i)) (filter (\<lambda>i. gs ! i = g) [0..<length rows])"
    using assms(2) by (intro map_cong) auto
  then have h: "map (\<lambda>i. (i, rows ! i)) (filter (\<lambda>i. gs ! i = g) [0..<length rows]) =
        map (\<lambda>i. (i, rows' ! i)) (filter (\<lambda>i. gs ! i = g) [0..<length rows'])"
    by (simp only: assms(1))
  show ?thesis by (simp only: sub_gdf_alt h)
qed

lemma length_apply_commits: "length (apply_commits prefix g cm rows) = length rows"
  by (induction cm arbitrary: rows) auto

lemma apply_commits_nth:
  "distinct (map fst cm) \<Longrightarrow> i < length rows \<Longrightarrow>
     apply_commits prefix g cm rows ! i = upd_row prefix g (map_of cm i) (rows ! i)"
proof (induction cm arbitrary: rows)
  case Nil
  then show ?case by simp
next
  case (Cons c cm)
  obtain idx n e where c: "c = (idx, n, e)" by (cases c)
  let ?rows1 = "rows[idx := (rows ! idx)\<lparr>ReefID := Some (new_reef_id prefix g e)\<rparr>]"
  from Cons.prems c have d: "distinct (map fst cm)" and nin: "idx \<notin> fst ` set cm" by simp_all
  have l: "i < length ?rows1" using Cons.prems(2) by simp
  have IH: "apply_commits prefix g cm ?rows1 ! i = upd_row prefix g (map_of cm i) (?rows1 ! i)"
    by (rule Cons.IH[OF d l])
  show ?case
  proof (cases "i = idx")
    case True
    from nin have "map_of cm idx = None" by (simp add: map_of_eq_None_iff)
    with IH True c Cons.prems(2) show ?thesis by simp
  next
    case False
    with IH c show ?thesis by simp
  qed
qed

lemma map_of_commits_dom:
  assumes "length ns = length (filter unl (sub_gdf gs g rows))"
  shows "(map_of (commits_of gs g rows ns) i \<noteq> None) =
           (i < length rows \<and> gs ! i = g \<and> ReefID (rows ! i) = None)"
proof -
  have "dom (map_of (commits_of gs g rows ns)) = set (map fst (filter unl (sub_gdf gs g rows)))"
    unfolding commits_of_def using assms by (subst dom_map_of_zip) simp_all
  then show ?thesis unfolding set_fst_unl_sub_gdf by (auto simp: dom_def)
qed

lemma map_of_commits_None:
  assumes "length ns = length (filter unl (sub_gdf gs g rows))"
    and "\<not> (i < length rows \<and> gs ! i = g \<and> ReefID (rows ! i) = None)"
  shows "map_of (commits_of gs g rows ns) i = None"
  using map_of_commits_dom[OF assms(1), of i] assms(2) by metis

lemma map_of_commits_Some:
  assumes "length ns = length (filter unl (sub_gdf gs g rows))"
    and "i < length rows" "gs ! i = g" "ReefID (rows ! i) = None"
  shows "\<exists>n e. map_of (commits_of gs g rows ns) i = Some (n, e)"
proof -
  from map_of_commits_dom[OF assms(1), of i] assms(2-4)
  have "map_of (commits_of gs g rows ns) i \<noteq> None" by metis
  then show ?thesis by (cases "map_of (commits_of gs g rows ns) i") auto
qed

lemma distinct_fst_commits:
  "distinct (map fst (commits_of gs g rows ns))"
  by (metis commits_of_def distinct_take map_fst_zip_take distinct_fst_unl_sub_gdf)

lemma assign_rows_group:
  assumes ar: "assign_rows cs prefix zp g (sub_gdf gs g (gdf st)) st = Some (Inr st1)"
    and dm: "dom (counts st) = dom (existing st)"
    and len: "length (gdf st) = length rows0"
    and same: "\<forall>i<length rows0. gs ! i = g \<longrightarrow> gdf st ! i = rows0 ! i"
  shows "\<exists>ns. chain cs zp (occ_at (existing st) prefix g) (nxt (counts st) prefix g) ns \<and>
       length ns = length (filter unl (sub_gdf gs g rows0)) \<and>
       length (gdf st1) = length rows0 \<and>
       (\<forall>i<length rows0. gdf st1 ! i =
           (if gs ! i = g then upd_row prefix g (map_of (commits_of gs g rows0 ns) i) (rows0 ! i)
            else gdf st ! i)) \<and>
       assigned st1 = assigned st @ log_of g (commits_of gs g rows0 ns) \<and>
       dom (counts st1) = dom (existing st1) \<and>
       (\<forall>p' g'. occ_at (existing st1) p' g' = occ_at (existing st) p' g') \<and>
       (\<forall>g'. g' \<noteq> g \<longrightarrow> nxt (counts st1) prefix g' = nxt (counts st) prefix g')"
proof -
  have sg: "sub_gdf gs g (gdf st) = sub_gdf gs g rows0"
    using same len by (intro sub_gdf_cong) auto
  from assign_rows_sound[OF ar dm] obtain ns where
    ch: "chain cs zp (occ_at (existing st) prefix g) (nxt (counts st) prefix g) ns"
    and ln: "length ns = length (filter unl (sub_gdf gs g rows0))"
    and gd: "gdf st1 = apply_commits prefix g (commits_of gs g rows0 ns) (gdf st)"
    and lg: "assigned st1 = assigned st @ log_of g (commits_of gs g rows0 ns)"
    and dm1: "dom (counts st1) = dom (existing st1)"
    and oc1: "\<And>p' g'. occ_at (existing st1) p' g' = occ_at (existing st) p' g'"
    and nx1: "\<And>p' g'. nxt (counts st1) p' g' =
           (if p' = prefix \<and> g' = g then chain_end (nxt (counts st) prefix g) ns
            else nxt (counts st) p' g')"
    unfolding sg commits_of_def by blast
  have l1: "length (gdf st1) = length rows0" using gd len by (simp add: length_apply_commits)
  have pt: "gdf st1 ! i =
           (if gs ! i = g then upd_row prefix g (map_of (commits_of gs g rows0 ns) i) (rows0 ! i)
            else gdf st ! i)" if i: "i < length rows0" for i
  proof -
    have a: "gdf st1 ! i = upd_row prefix g (map_of (commits_of gs g rows0 ns) i) (gdf st ! i)"
      unfolding gd using i len by (intro apply_commits_nth distinct_fst_commits) simp
    show ?thesis
    proof (cases "gs ! i = g")
      case True
      with a same i show ?thesis by simp
    next
      case False
      with map_of_commits_dom[OF ln, of i] have "map_of (commits_of gs g rows0 ns) i = None" by metis
      with a False show ?thesis by simp
    qed
  qed
  show ?thesis
    using ch ln l1 pt lg dm1 oc1 nx1 by (intro exI[of _ ns]) simp
qed

lemma assign_groups_sound:
  assumes "assign_groups cs prefix zp gs groups st = Some (Inr st')"
    and "dom (counts st) = dom (existing st)"
    and "distinct groups"
    and "length (gdf st) = length rows0"
    and "\<forall>i<length rows0. gs ! i \<in> set groups \<longrightarrow> gdf st ! i = rows0 ! i"
  shows "\<exists>NS. (\<forall>g\<in>set groups. chain cs zp (occ_at (existing st) prefix g) (nxt (counts st) prefix g) (NS g) \<and>
                  length (NS g) = length (filter unl (sub_gdf gs g rows0))) \<and>
         length (gdf st') = length rows0 \<and>
         (\<forall>i<length rows0. gdf st' ! i =
              (if gs ! i \<in> set groups
               then upd_row prefix (gs ! i) (map_of (commits_of gs (gs ! i) rows0 (NS (gs ! i))) i) (rows0 ! i)
               else gdf st ! i)) \<and>
         assigned st' = assigned st @ concat (map (\<lambda>g. log_of g (commits_of gs g rows0 (NS g))) groups) \<and>
         dom (counts st') = dom (existing st') \<and>
         (\<forall>p' g'. occ_at (existing st') p' g' = occ_at (existing st) p' g')"
  using assms
proof (induction groups arbitrary: st)
  case Nil
  then have "st' = st" by simp
  with Nil.prems show ?case by simp
next
  case (Cons g rest)
  from Cons.prems(1) obtain st1 where
    ar: "assign_rows cs prefix zp g (sub_gdf gs g (gdf st)) st = Some (Inr st1)"
    and rec: "assign_groups cs prefix zp gs rest st1 = Some (Inr st')"
    by (auto split: option.splits sum.splits)
  have sameg: "\<forall>i<length rows0. gs ! i = g \<longrightarrow> gdf st ! i = rows0 ! i"
    using Cons.prems(5) by simp
  from assign_rows_group[OF ar Cons.prems(2) Cons.prems(4) sameg] obtain ns where
    ch: "chain cs zp (occ_at (existing st) prefix g) (nxt (counts st) prefix g) ns"
    and ln: "length ns = length (filter unl (sub_gdf gs g rows0))"
    and l1: "length (gdf st1) = length rows0"
    and pt1: "\<And>i. i < length rows0 \<Longrightarrow> gdf st1 ! i =
           (if gs ! i = g then upd_row prefix g (map_of (commits_of gs g rows0 ns) i) (rows0 ! i)
            else gdf st ! i)"
    and lg1: "assigned st1 = assigned st @ log_of g (commits_of gs g rows0 ns)"
    and dm1: "dom (counts st1) = dom (existing st1)"
    and oc1: "\<And>p' g'. occ_at (existing st1) p' g' = occ_at (existing st) p' g'"
    and nx1: "\<And>g'. g' \<noteq> g \<Longrightarrow> nxt (counts st1) prefix g' = nxt (counts st) prefix g'"
    by blast
  from Cons.prems(3) have gnin: "g \<notin> set rest" and dr: "distinct rest" by simp_all
  have same1: "\<forall>i<length rows0. gs ! i \<in> set rest \<longrightarrow> gdf st1 ! i = rows0 ! i"
  proof (intro allI impI)
    fix i assume i: "i < length rows0" and m: "gs ! i \<in> set rest"
    with gnin have "gs ! i \<noteq> g" by auto
    with pt1[OF i] have "gdf st1 ! i = gdf st ! i" by simp
    with Cons.prems(5) i m show "gdf st1 ! i = rows0 ! i" by simp
  qed
  from Cons.IH[OF rec dm1 dr l1 same1] obtain NS' where
    ch': "\<And>g'. g' \<in> set rest \<Longrightarrow> chain cs zp (occ_at (existing st1) prefix g') (nxt (counts st1) prefix g') (NS' g') \<and>
                  length (NS' g') = length (filter unl (sub_gdf gs g' rows0))"
    and l': "length (gdf st') = length rows0"
    and pt': "\<And>i. i < length rows0 \<Longrightarrow> gdf st' ! i =
              (if gs ! i \<in> set rest
               then upd_row prefix (gs ! i) (map_of (commits_of gs (gs ! i) rows0 (NS' (gs ! i))) i) (rows0 ! i)
               else gdf st1 ! i)"
    and lg': "assigned st' = assigned st1 @ concat (map (\<lambda>g. log_of g (commits_of gs g rows0 (NS' g))) rest)"
    and dm': "dom (counts st') = dom (existing st')"
    and oc': "\<And>p' g'. occ_at (existing st') p' g' = occ_at (existing st1) p' g'"
    by blast
  let ?NS = "NS'(g := ns)"
  have NSrest: "?NS g' = NS' g'" if "g' \<in> set rest" for g'
    using that gnin by auto
  show ?case
  proof (intro exI[of _ ?NS] conjI ballI allI impI)
    fix g' assume "g' \<in> set (g # rest)"
    then consider "g' = g" | "g' \<in> set rest" "g' \<noteq> g" using gnin by auto
    then show "chain cs zp (occ_at (existing st) prefix g') (nxt (counts st) prefix g') (?NS g')"
    proof cases
      case 1
      with ch show ?thesis by simp
    next
      case 2
      with ch'[of g'] oc1 nx1[of g'] show ?thesis by simp
    qed
  next
    fix g' assume "g' \<in> set (g # rest)"
    then consider "g' = g" | "g' \<in> set rest" "g' \<noteq> g" using gnin by auto
    then show "length (?NS g') = length (filter unl (sub_gdf gs g' rows0))"
    proof cases
      case 1
      with ln show ?thesis by simp
    next
      case 2
      with ch'[of g'] show ?thesis by simp
    qed
  next
    show "length (gdf st') = length rows0" by (rule l')
  next
    fix i assume i: "i < length rows0"
    show "gdf st' ! i =
              (if gs ! i \<in> set (g # rest)
               then upd_row prefix (gs ! i) (map_of (commits_of gs (gs ! i) rows0 (?NS (gs ! i))) i) (rows0 ! i)
               else gdf st ! i)"
    proof (cases "gs ! i = g")
      case True
      with gnin have "gs ! i \<notin> set rest" by simp
      with pt'[OF i] pt1[OF i] True show ?thesis by simp
    next
      case False
      show ?thesis
      proof (cases "gs ! i \<in> set rest")
        case True
        with pt'[OF i] False show ?thesis by simp
      next
        case nr: False
        with pt'[OF i] pt1[OF i] False show ?thesis by simp
      qed
    qed
  next
    have h: "map (\<lambda>g. log_of g (commits_of gs g rows0 (?NS g))) rest =
          map (\<lambda>g. log_of g (commits_of gs g rows0 (NS' g))) rest"
      using NSrest by (intro map_cong) simp_all
    show "assigned st' = assigned st @
         concat (map (\<lambda>g. log_of g (commits_of gs g rows0 (?NS g))) (g # rest))"
      by (simp only: h list.map concat.simps fun_upd_same lg' lg1 append_assoc)
  next
    show "dom (counts st') = dom (existing st')" by (rule dm')
  next
    fix p' g' show "occ_at (existing st') p' g' = occ_at (existing st) p' g'"
      using oc' oc1 by simp
  qed
qed

lemma assign_groups_complete:
  assumes "dom (counts st) = dom (existing st)"
    and "distinct groups"
    and "length (gdf st) = length rows0"
    and "\<forall>i<length rows0. gs ! i \<in> set groups \<longrightarrow> gdf st ! i = rows0 ! i"
    and "\<forall>g\<in>set groups. \<exists>ns. chain cs zp (occ_at (existing st) prefix g) (nxt (counts st) prefix g) ns \<and>
                  length ns = length (filter unl (sub_gdf gs g rows0))"
  shows "\<exists>st'. assign_groups cs prefix zp gs groups st = Some (Inr st')"
  using assms
proof (induction groups arbitrary: st)
  case Nil
  then show ?case by simp
next
  case (Cons g rest)
  from Cons.prems(5) obtain ns where
    ch: "chain cs zp (occ_at (existing st) prefix g) (nxt (counts st) prefix g) ns"
    and ln: "length ns = length (filter unl (sub_gdf gs g rows0))" by auto
  have sameg: "\<forall>i<length rows0. gs ! i = g \<longrightarrow> gdf st ! i = rows0 ! i"
    using Cons.prems(4) by simp
  have sg: "sub_gdf gs g (gdf st) = sub_gdf gs g rows0"
    using sameg Cons.prems(3) by (intro sub_gdf_cong) auto
  from assign_rows_complete[OF ch _ Cons.prems(1), of "sub_gdf gs g (gdf st)"] ln sg
  obtain st1 where ar: "assign_rows cs prefix zp g (sub_gdf gs g (gdf st)) st = Some (Inr st1)"
    by auto
  from assign_rows_group[OF ar Cons.prems(1) Cons.prems(3) sameg] obtain ns1 where
    l1: "length (gdf st1) = length rows0"
    and pt1: "\<And>i. i < length rows0 \<Longrightarrow> gdf st1 ! i =
           (if gs ! i = g then upd_row prefix g (map_of (commits_of gs g rows0 ns1) i) (rows0 ! i)
            else gdf st ! i)"
    and dm1: "dom (counts st1) = dom (existing st1)"
    and oc1: "\<And>p' g'. occ_at (existing st1) p' g' = occ_at (existing st) p' g'"
    and nx1: "\<And>g'. g' \<noteq> g \<Longrightarrow> nxt (counts st1) prefix g' = nxt (counts st) prefix g'"
    by blast
  from Cons.prems(2) have gnin: "g \<notin> set rest" and dr: "distinct rest" by simp_all
  have same1: "\<forall>i<length rows0. gs ! i \<in> set rest \<longrightarrow> gdf st1 ! i = rows0 ! i"
  proof (intro allI impI)
    fix i assume i: "i < length rows0" and m: "gs ! i \<in> set rest"
    with gnin have "gs ! i \<noteq> g" by auto
    with pt1[OF i] have "gdf st1 ! i = gdf st ! i" by simp
    with Cons.prems(4) i m show "gdf st1 ! i = rows0 ! i" by simp
  qed
  have ch1: "\<forall>g'\<in>set rest. \<exists>ns. chain cs zp (occ_at (existing st1) prefix g') (nxt (counts st1) prefix g') ns \<and>
                  length ns = length (filter unl (sub_gdf gs g' rows0))"
  proof
    fix g' assume m: "g' \<in> set rest"
    with gnin have "g' \<noteq> g" by auto
    with Cons.prems(5) m oc1 nx1[of g'] show "\<exists>ns. chain cs zp (occ_at (existing st1) prefix g') (nxt (counts st1) prefix g') ns \<and>
                  length ns = length (filter unl (sub_gdf gs g' rows0))" by simp
  qed
  from Cons.IH[OF dm1 dr l1 same1 ch1] obtain st' where
    "assign_groups cs prefix zp gs rest st1 = Some (Inr st')" by blast
  with ar show ?case by simp
qed

section \<open>A whole run\<close>

lemma grid_schemes_of_spec:
  "grid_schemes_of cs rows = Inr gs \<Longrightarrow>
     gs = map (the_grid cs) rows \<and> (\<forall>row\<in>set rows. grid_of cs row = Inr (the_grid cs row))"
proof (induction rows arbitrary: gs)
  case Nil
  then show ?case by simp
next
  case (Cons row rows)
  from Cons.prems obtain g gs' where g: "grid_of cs row = Inr g"
    and r: "grid_schemes_of cs rows = Inr gs'" and gs: "gs = g # gs'"
    by (auto simp: grid_of_def split: sum.splits)
  from Cons.IH[OF r] g gs show ?case by (simp add: the_grid_def)
qed

lemma grid_schemes_of_total:
  "\<forall>row\<in>set rows. \<exists>g. grid_of cs row = Inr g \<Longrightarrow> grid_schemes_of cs rows = Inr (map (the_grid cs) rows)"
proof (induction rows)
  case Nil
  then show ?case by simp
next
  case (Cons row rows)
  then obtain g where g: "grid_of cs row = Inr g" by auto
  with Cons show ?case by (simp add: grid_of_def the_grid_def)
qed

lemma grid_schemes_of_cong:
  "map centroid rows = map centroid rows' \<Longrightarrow> grid_schemes_of cs rows = grid_schemes_of cs rows'"
proof (induction rows arbitrary: rows')
  case Nil
  then show ?case by simp
next
  case (Cons row rows)
  then obtain row' rows2 where r: "rows' = row' # rows2" by (cases rows') auto
  with Cons.prems have "centroid row = centroid row'" "map centroid rows = map centroid rows2" by simp_all
  with Cons.IH[of rows2] r show ?case by (simp cong: sum.case_cong)
qed

lemma encode_grid_length: "encode_grid cs x y = Inr g \<Longrightarrow> length g = 4"
  by (auto simp: encode_grid_def Let_def split: if_splits sum.splits)

lemma encode_base_str_mem: "encode_base_str cs v = Inr c \<Longrightarrow> c \<in> set cs"
  by (auto simp: encode_base_str_def Let_def split: if_splits)

lemma encode_grid_chars: "encode_grid cs x y = Inr g \<Longrightarrow> set g \<subseteq> set cs"
  by (auto simp: encode_grid_def Let_def split: if_splits sum.splits dest: encode_base_str_mem)

lemma set_unique: "set (unique xs) = set xs"
  by (simp add: unique_def)

lemma distinct_unique: "distinct (unique xs)"
  by (simp add: unique_def)

lemma run_allocator_sound:
  assumes run: "run_allocator cs rows prefix zp = Some (Inr st')"
  shows "\<exists>cnt0 ex0 gs NS. process_existing cs rows (Map.empty, Map.empty) = Inr (cnt0, ex0) \<and>
     grid_schemes_of cs rows = Inr gs \<and>
     (\<forall>g\<in>set gs. chain cs zp (occ_at ex0 prefix g) (nxt cnt0 prefix g) (NS g) \<and>
                 length (NS g) = length (filter unl (sub_gdf gs g rows))) \<and>
     length (gdf st') = length rows \<and>
     (\<forall>i<length rows. gdf st' ! i =
          upd_row prefix (gs ! i) (map_of (commits_of gs (gs ! i) rows (NS (gs ! i))) i) (rows ! i)) \<and>
     assigned st' = concat (map (\<lambda>g. log_of g (commits_of gs g rows (NS g))) (unique gs))"
proof -
  from run obtain cnt0 ex0 where pe: "process_existing cs rows (Map.empty, Map.empty) = Inr (cnt0, ex0)"
    by (auto simp: run_allocator_def split: sum.splits)
  from run pe obtain gs where gs: "grid_schemes_of cs rows = Inr gs"
    by (auto simp: run_allocator_def split: sum.splits)
  define st0 where "st0 = \<lparr>counts = cnt0, existing = ex0, gdf = rows, assigned = []\<rparr>"
  have sels: "counts st0 = cnt0" "existing st0 = ex0" "gdf st0 = rows" "assigned st0 = []"
    by (simp_all add: st0_def)
  from run pe gs have ag: "assign_groups cs prefix zp gs (unique gs) st0 = Some (Inr st')"
    by (simp add: run_allocator_def st0_def)
  have dm: "dom (counts st0) = dom (existing st0)"
    using process_existing_spec[OF pe] by (simp add: sels)
  have lgs: "length gs = length rows" using grid_schemes_of_spec[OF gs] by simp
  have l0: "length (gdf st0) = length rows" by (simp add: sels)
  have s0: "\<forall>i<length rows. gs ! i \<in> set (unique gs) \<longrightarrow> gdf st0 ! i = rows ! i" by (simp add: sels)
  from assign_groups_sound[OF ag dm distinct_unique l0 s0] obtain NS where
    ch: "\<forall>g\<in>set (unique gs). chain cs zp (occ_at (existing st0) prefix g) (nxt (counts st0) prefix g) (NS g) \<and>
                  length (NS g) = length (filter unl (sub_gdf gs g rows))"
    and l: "length (gdf st') = length rows"
    and pt: "\<forall>i<length rows. gdf st' ! i =
              (if gs ! i \<in> set (unique gs)
               then upd_row prefix (gs ! i) (map_of (commits_of gs (gs ! i) rows (NS (gs ! i))) i) (rows ! i)
               else gdf st0 ! i)"
    and lg: "assigned st' = assigned st0 @ concat (map (\<lambda>g. log_of g (commits_of gs g rows (NS g))) (unique gs))"
    by blast
  have pt': "gdf st' ! i =
          upd_row prefix (gs ! i) (map_of (commits_of gs (gs ! i) rows (NS (gs ! i))) i) (rows ! i)"
    if "i < length rows" for i
    using pt that lgs by (simp add: set_unique)
  have ch': "\<forall>g\<in>set gs. chain cs zp (occ_at ex0 prefix g) (nxt cnt0 prefix g) (NS g) \<and>
                 length (NS g) = length (filter unl (sub_gdf gs g rows))"
    using ch by (simp add: set_unique sels)
  have lg': "assigned st' = concat (map (\<lambda>g. log_of g (commits_of gs g rows (NS g))) (unique gs))"
    using lg by (simp add: sels)
  from pe gs ch' l pt' lg' show ?thesis by blast
qed

lemma run_allocator_complete:
  assumes pe: "process_existing cs rows (Map.empty, Map.empty) = Inr (cnt0, ex0)"
    and gs: "grid_schemes_of cs rows = Inr gs"
    and ch: "\<forall>g\<in>set gs. \<exists>ns. chain cs zp (occ_at ex0 prefix g) (nxt cnt0 prefix g) ns \<and>
                 length ns = length (filter unl (sub_gdf gs g rows))"
  shows "\<exists>st'. run_allocator cs rows prefix zp = Some (Inr st')"
proof -
  define st0 where "st0 = \<lparr>counts = cnt0, existing = ex0, gdf = rows, assigned = []\<rparr>"
  have sels: "counts st0 = cnt0" "existing st0 = ex0" "gdf st0 = rows" "assigned st0 = []"
    by (simp_all add: st0_def)
  have dm: "dom (counts st0) = dom (existing st0)"
    using process_existing_spec[OF pe] by (simp add: sels)
  have l0: "length (gdf st0) = length rows" by (simp add: sels)
  have s0: "\<forall>i<length rows. gs ! i \<in> set (unique gs) \<longrightarrow> gdf st0 ! i = rows ! i" by (simp add: sels)
  have c0: "\<forall>g\<in>set (unique gs). \<exists>ns. chain cs zp (occ_at (existing st0) prefix g) (nxt (counts st0) prefix g) ns \<and>
                  length ns = length (filter unl (sub_gdf gs g rows))"
    using ch by (simp add: set_unique sels)
  from assign_groups_complete[OF dm distinct_unique l0 s0 c0]
  have "\<exists>st'. assign_groups cs prefix zp gs (unique gs) st0 = Some (Inr st')" .
  with pe gs show ?thesis by (simp add: run_allocator_def st0_def)
qed

lemma run_allocator_rows:
  assumes run: "run_allocator cs rows prefix zp = Some (Inr st')"
  obtains cnt0 ex0 gs NS where
    "process_existing cs rows (Map.empty, Map.empty) = Inr (cnt0, ex0)"
    "grid_schemes_of cs rows = Inr gs"
    "length gs = length rows"
    "\<And>g. g \<in> set gs \<Longrightarrow> chain cs zp (occ_at ex0 prefix g) (nxt cnt0 prefix g) (NS g)"
    "\<And>g. g \<in> set gs \<Longrightarrow> length (NS g) = length (filter unl (sub_gdf gs g rows))"
    "length (gdf st') = length rows"
    "\<And>i s. i < length rows \<Longrightarrow> ReefID (rows ! i) = Some s \<Longrightarrow> gdf st' ! i = rows ! i"
    "\<And>i. i < length rows \<Longrightarrow> ReefID (rows ! i) = None \<Longrightarrow>
        \<exists>n e. map_of (commits_of gs (gs ! i) rows (NS (gs ! i))) i = Some (n, e) \<and>
              gdf st' ! i = (rows ! i)\<lparr>ReefID := Some (new_reef_id prefix (gs ! i) e)\<rparr>"
    "assigned st' = concat (map (\<lambda>g. log_of g (commits_of gs g rows (NS g))) (unique gs))"
proof -
  from run_allocator_sound[OF run] obtain cnt0 ex0 gs NS where
    pe: "process_existing cs rows (Map.empty, Map.empty) = Inr (cnt0, ex0)"
    and gs: "grid_schemes_of cs rows = Inr gs"
    and ch: "\<And>g. g \<in> set gs \<Longrightarrow> chain cs zp (occ_at ex0 prefix g) (nxt cnt0 prefix g) (NS g) \<and>
                 length (NS g) = length (filter unl (sub_gdf gs g rows))"
    and l: "length (gdf st') = length rows"
    and pt: "\<And>i. i < length rows \<Longrightarrow> gdf st' ! i =
          upd_row prefix (gs ! i) (map_of (commits_of gs (gs ! i) rows (NS (gs ! i))) i) (rows ! i)"
    and lg: "assigned st' = concat (map (\<lambda>g. log_of g (commits_of gs g rows (NS g))) (unique gs))"
    by blast
  have lgs: "length gs = length rows" using grid_schemes_of_spec[OF gs] by simp
  have lab: "gdf st' ! i = rows ! i" if i: "i < length rows" and s: "ReefID (rows ! i) = Some s" for i s
  proof -
    have "gs ! i \<in> set gs" using i lgs by simp
    from map_of_commits_None[OF conjunct2[OF ch[OF this]], of i] s
    have "map_of (commits_of gs (gs ! i) rows (NS (gs ! i))) i = None" by simp
    with pt[OF i] show ?thesis by simp
  qed
  have unlab: "\<exists>n e. map_of (commits_of gs (gs ! i) rows (NS (gs ! i))) i = Some (n, e) \<and>
              gdf st' ! i = (rows ! i)\<lparr>ReefID := Some (new_reef_id prefix (gs ! i) e)\<rparr>"
    if i: "i < length rows" and s: "ReefID (rows ! i) = None" for i
  proof -
    have "gs ! i \<in> set gs" using i lgs by simp
    from map_of_commits_Some[OF conjunct2[OF ch[OF this]] i _ s]
    obtain n e where "map_of (commits_of gs (gs ! i) rows (NS (gs ! i))) i = Some (n, e)" by auto
    with pt[OF i] show ?thesis by simp
  qed
  show ?thesis
  proof (rule that)
    show "process_existing cs rows (Map.empty, Map.empty) = Inr (cnt0, ex0)" by (rule pe)
    show "grid_schemes_of cs rows = Inr gs" by (rule gs)
    show "length gs = length rows" by (rule lgs)
    show "\<And>g. g \<in> set gs \<Longrightarrow> chain cs zp (occ_at ex0 prefix g) (nxt cnt0 prefix g) (NS g)"
      using ch by blast
    show "\<And>g. g \<in> set gs \<Longrightarrow> length (NS g) = length (filter unl (sub_gdf gs g rows))"
      using ch by blast
    show "length (gdf st') = length rows" by (rule l)
    show "\<And>i s. i < length rows \<Longrightarrow> ReefID (rows ! i) = Some s \<Longrightarrow> gdf st' ! i = rows ! i"
      by (rule lab)
    show "\<And>i. i < length rows \<Longrightarrow> ReefID (rows ! i) = None \<Longrightarrow>
        \<exists>n e. map_of (commits_of gs (gs ! i) rows (NS (gs ! i))) i = Some (n, e) \<and>
              gdf st' ! i = (rows ! i)\<lparr>ReefID := Some (new_reef_id prefix (gs ! i) e)\<rparr>"
      by (rule unlab)
    show "assigned st' = concat (map (\<lambda>g. log_of g (commits_of gs g rows (NS g))) (unique gs))"
      by (rule lg)
  qed
qed

lemma process_shapefile_Inr:
  "process_shapefile cs rows prefix zp = Some (Inr out) \<Longrightarrow>
     \<exists>st. run_allocator cs rows prefix zp = Some (Inr st) \<and> out = gdf st"
proof -
  assume a: "process_shapefile cs rows prefix zp = Some (Inr out)"
  then obtain r where r: "run_allocator cs rows prefix zp = Some r" and m: "map_sum id gdf r = Inr out"
    by (auto simp: process_shapefile_def)
  from m obtain st where "r = Inr st" "out = gdf st" by (cases r) auto
  with r show ?thesis by blast
qed

lemma split_reef_id_length:
  "length (split_sep CHR ''-'' rid) \<noteq> 3 \<Longrightarrow> split_reef_id rid = Inl ValueError"
  by (auto simp: split_reef_id_def split: list.splits)

lemma log_of_nth:
  "a < length is \<Longrightarrow> a < length ns \<Longrightarrow> log_of g (zip is ns) ! a = (is ! a, g, fst (ns ! a))"
  by (cases "ns ! a") (simp add: log_of_def)

lemma log_of_grid: "x \<in> set (log_of g cm) \<Longrightarrow> fst (snd x) = g"
  by (auto simp: log_of_def)

lemma seg_increasing:
  assumes "chain cs zp occ s ns"
  shows "log_increasing (log_of g (zip is ns))"
  unfolding log_increasing_def sorted_wrt_iff_nth_less
proof (intro allI impI)
  fix a b assume ab: "a < b" and b: "b < length (log_of g (zip is ns))"
    and "fst (snd (log_of g (zip is ns) ! a)) = fst (snd (log_of g (zip is ns) ! b))"
  then have bl: "b < length is" "b < length ns" by (simp_all add: log_of_def)
  with ab have al: "a < length is" "a < length ns" by simp_all
  from chain_sorted[OF assms ab bl(2)]
  show "snd (snd (log_of g (zip is ns) ! a)) < snd (snd (log_of g (zip is ns) ! b))"
    by (simp add: log_of_nth al bl)
qed

lemma concat_increasing:
  "distinct groups \<Longrightarrow> \<forall>g\<in>set groups. log_increasing (seg g) \<and> (\<forall>x\<in>set (seg g). fst (snd x) = g) \<Longrightarrow>
     log_increasing (concat (map seg groups))"
proof (induction groups)
  case Nil
  then show ?case by (simp add: log_increasing_def)
next
  case (Cons g groups)
  then have IH: "log_increasing (concat (map seg groups))" by simp
  have "fst (snd x) \<noteq> fst (snd y)" if "x \<in> set (seg g)" "y \<in> set (concat (map seg groups))" for x y
  proof -
    from that(2) obtain g' where g': "g' \<in> set groups" "y \<in> set (seg g')" by auto
    with Cons.prems have "fst (snd y) = g'" "g' \<noteq> g" by auto
    moreover from that(1) Cons.prems(2) have "fst (snd x) = g" by simp
    ultimately show ?thesis by simp
  qed
  with IH Cons.prems(2) show ?case
    unfolding log_increasing_def by (simp add: sorted_wrt_append)
qed

section \<open>Identifiers as strings\<close>

lemma split_sep_ne: "split_sep sep xs \<noteq> []"
  by (induction xs) (auto simp: Let_def)

lemma split_sep_append:
  "split_sep sep (xs @ sep # ys) = split_sep sep xs @ split_sep sep ys"
proof (induction xs)
  case Nil
  then show ?case by simp
next
  case (Cons c xs)
  show ?case
  proof (cases "c = sep")
    case True
    with Cons show ?thesis by simp
  next
    case False
    obtain p ps where ps: "split_sep sep xs = p # ps"
      using split_sep_ne[of sep xs] by (cases "split_sep sep xs") auto
    with Cons False show ?thesis by (simp add: Let_def)
  qed
qed

lemma split_sep_nosep: "sep \<notin> set xs \<Longrightarrow> split_sep sep xs = [xs]"
  by (induction xs) (auto simp: Let_def)

lemma split_sep_length1: "length (split_sep sep xs) = 1 \<Longrightarrow> sep \<notin> set xs"
proof (induction xs)
  case Nil
  then show ?case by simp
next
  case (Cons c xs)
  obtain p ps where ps: "split_sep sep xs = p # ps"
    using split_sep_ne[of sep xs] by (cases "split_sep sep xs") auto
  show ?case
  proof (cases "c = sep")
    case True
    with Cons.prems ps show ?thesis by simp
  next
    case False
    with Cons.prems ps have "length (split_sep sep xs) = 1" by (simp add: Let_def)
    with Cons.IH False show ?thesis by simp
  qed
qed

lemma split_new_reef_id:
  "split_sep CHR ''-'' (new_reef_id p g e) =
     split_sep CHR ''-'' p @ split_sep CHR ''-'' g @ split_sep CHR ''-'' e"
proof -
  have "new_reef_id p g e = p @ CHR ''-'' # (g @ CHR ''-'' # e)" by (simp add: new_reef_id_def)
  then show ?thesis by (simp only: split_sep_append)
qed

lemma split_reef_id_new_ok:
  "CHR ''-'' \<notin> set p \<Longrightarrow> CHR ''-'' \<notin> set g \<Longrightarrow> CHR ''-'' \<notin> set e \<Longrightarrow>
     split_reef_id (new_reef_id p g e) = Inr (p, g, e)"
  by (simp add: split_reef_id_def split_new_reef_id split_sep_nosep)

lemma split_reef_id_Inr: "split_reef_id rid = Inr (a, b, c) \<Longrightarrow> split_sep CHR ''-'' rid = [a, b, c]"
  by (auto simp: split_reef_id_def split: list.splits)

lemma split_reef_id_new_inv:
  assumes "split_reef_id (new_reef_id p g e) = Inr (a, b, c)"
  shows "a = p \<and> b = g \<and> c = e"
proof -
  let ?s = "split_sep CHR ''-''"
  from split_reef_id_Inr[OF assms] have eq: "?s p @ ?s g @ ?s e = [a, b, c]"
    by (simp add: split_new_reef_id)
  then have "length (?s p) + length (?s g) + length (?s e) = 3"
    by (metis length_append add.assoc length_Cons list.size(3) numeral_3_eq_3)
  moreover have "1 \<le> length (?s p)" "1 \<le> length (?s g)" "1 \<le> length (?s e)"
    using split_sep_ne[of "CHR ''-''"] by (simp_all add: Suc_le_eq)
  ultimately have l: "length (?s p) = 1" "length (?s g) = 1" "length (?s e) = 1" by linarith+
  from l have "?s p = [p]" "?s g = [g]" "?s e = [e]"
    by (simp_all add: split_sep_length1 split_sep_nosep)
  with eq show ?thesis by simp
qed

lemma decode_counter_from_total:
  "set s \<subseteq> set cs \<Longrightarrow> \<exists>d. decode_counter_from cs k s = Inr d"
proof (induction s arbitrary: k)
  case Nil
  then show ?case by simp
next
  case (Cons c s)
  then have "c \<in> set cs" by simp
  from str_index_mem[OF this] obtain i where "str_index cs c = Some i" by blast
  then have "decode_base_str cs c = Inr (int i)" by (simp add: decode_base_str_def)
  with Cons show ?case by simp
qed

lemma decode_counter_total: "set s \<subseteq> set cs \<Longrightarrow> \<exists>d. decode_counter cs s = Inr d"
  unfolding decode_counter_def by (rule decode_counter_from_total)

lemma digits_chars:
  assumes run: "encode_counter_digits cs n acc = Some r"
  shows "\<forall>s. r = Inr s \<longrightarrow> set s \<subseteq> set cs \<union> set acc"
proof -
  let ?Q = "\<lambda>cs n acc r. \<forall>s. r = Inr s \<longrightarrow> set s \<subseteq> set cs \<union> set acc"
  show ?thesis
  proof (rule encode_counter_digits.raw_induct[where P = ?Q, OF _ run], intro allI impI)
    fix f cs n acc r s
    assume IH: "\<And>cs n acc r. f cs n acc = Some r \<Longrightarrow> ?Q cs n acc r"
      and body: "(if 0 < n then if length cs = 0 then Some (Inl ZeroDivisionError)
           else case encode_base_str cs (n mod int (length cs)) of
                Inl e \<Rightarrow> Some (Inl e)
                | Inr c \<Rightarrow> f cs (n div int (length cs)) (c # acc)
      else Some (Inr acc)) = Some r"
      and r: "r = Inr s"
    show "set s \<subseteq> set cs \<union> set acc"
    proof (cases "0 < n")
      case False
      with body r show ?thesis by auto
    next
      case True
      with body r obtain c where c: "encode_base_str cs (n mod int (length cs)) = Inr c"
        and rec: "f cs (n div int (length cs)) (c # acc) = Some (Inr s)"
        by (auto split: if_splits sum.splits)
      from IH[OF rec] have "set s \<subseteq> set cs \<union> set (c # acc)" by blast
      with encode_base_str_mem[OF c] show ?thesis by auto
    qed
  qed
qed

lemma encode_counter_chars:
  assumes "encode_counter cs n zp = Some (Inr e)"
  shows "set e \<subseteq> set cs"
proof -
  from assms obtain ds where run: "encode_counter_digits cs n [] = Some (Inr ds)"
    and pad: "encode_counter_pad cs ds zp = Inr e"
    by (auto simp: encode_counter_def split: option.splits sum.splits)
  from digits_chars[OF run] have d: "set ds \<subseteq> set cs" by simp
  from pad_spec[OF pad] have e: "e = replicate (nat (zp - int (length ds))) (cs ! 0) @ ds"
    and ne: "int (length ds) < zp \<longrightarrow> cs \<noteq> []" by simp_all
  show ?thesis
  proof (cases "int (length ds) < zp")
    case True
    with ne have "cs ! 0 \<in> set cs" by simp
    with e d show ?thesis by auto
  next
    case False
    with e d show ?thesis by simp
  qed
qed

lemma process_existing_all_ok:
  assumes "process_existing cs rows (cnt, ex) = Inr st'" "dom cnt = dom ex"
  shows "all_parse_ok cs rows"
proof (rule ccontr)
  assume "\<not> all_parse_ok cs rows"
  from process_existing_fail[OF assms(2) this] assms(1) show False by simp
qed

lemma map_of_zip_in_set:
  "map_of (zip xs ys) i = Some y \<Longrightarrow> y \<in> set ys"
  by (meson map_of_SomeD set_zip_rightD)

lemma commit_in_chain:
  "map_of (commits_of gs g rows ns) i = Some (n, e) \<Longrightarrow> (n, e) \<in> set ns"
  unfolding commits_of_def by (rule map_of_zip_in_set)

lemma run_out_labeled:
  assumes run: "run_allocator cs rows prefix zp = Some (Inr st)" and i: "i < length rows"
  shows "\<exists>s. ReefID (gdf st ! i) = Some s"
  using run
proof (rule run_allocator_rows)
  fix cnt0 ex0 gs NS
  assume lab: "\<And>i s. i < length rows \<Longrightarrow> ReefID (rows ! i) = Some s \<Longrightarrow> gdf st ! i = rows ! i"
    and unlab: "\<And>i. i < length rows \<Longrightarrow> ReefID (rows ! i) = None \<Longrightarrow>
        \<exists>n e. map_of (commits_of gs (gs ! i) rows (NS (gs ! i))) i = Some (n, e) \<and>
              gdf st ! i = (rows ! i)\<lparr>ReefID := Some (new_reef_id prefix (gs ! i) e)\<rparr>"
  show ?thesis
  proof (cases "ReefID (rows ! i)")
    case None
    from unlab[OF i None] show ?thesis by auto
  next
    case (Some s)
    from lab[OF i Some] Some show ?thesis by simp
  qed
qed

lemma run_out_centroid:
  assumes run: "run_allocator cs rows prefix zp = Some (Inr st)" and i: "i < length rows"
  shows "centroid (gdf st ! i) = centroid (rows ! i)"
  using run
proof (rule run_allocator_rows)
  fix cnt0 ex0 gs NS
  assume lab: "\<And>i s. i < length rows \<Longrightarrow> ReefID (rows ! i) = Some s \<Longrightarrow> gdf st ! i = rows ! i"
    and unlab: "\<And>i. i < length rows \<Longrightarrow> ReefID (rows ! i) = None \<Longrightarrow>
        \<exists>n e. map_of (commits_of gs (gs ! i) rows (NS (gs ! i))) i = Some (n, e) \<and>
              gdf st ! i = (rows ! i)\<lparr>ReefID := Some (new_reef_id prefix (gs ! i) e)\<rparr>"
  show ?thesis
  proof (cases "ReefID (rows ! i)")
    case None
    from unlab[OF i None] show ?thesis by auto
  next
    case (Some s)
    from lab[OF i Some] Some show ?thesis by simp
  qed
qed

lemma run_out_parse_ok:
  assumes run: "run_allocator cs rows prefix zp = Some (Inr st)"
    and hp: "CHR ''-'' \<notin> set prefix" and hc: "CHR ''-'' \<notin> set cs"
  shows "all_parse_ok cs (gdf st)"
  using run
proof (rule run_allocator_rows)
  fix cnt0 ex0 gs NS
  assume pe: "process_existing cs rows (Map.empty, Map.empty) = Inr (cnt0, ex0)"
    and gs: "grid_schemes_of cs rows = Inr gs"
    and lgs: "length gs = length rows"
    and ch: "\<And>g. g \<in> set gs \<Longrightarrow> chain cs zp (occ_at ex0 prefix g) (nxt cnt0 prefix g) (NS g)"
    and l: "length (gdf st) = length rows"
    and lab: "\<And>i s. i < length rows \<Longrightarrow> ReefID (rows ! i) = Some s \<Longrightarrow> gdf st ! i = rows ! i"
    and unlab: "\<And>i. i < length rows \<Longrightarrow> ReefID (rows ! i) = None \<Longrightarrow>
        \<exists>n e. map_of (commits_of gs (gs ! i) rows (NS (gs ! i))) i = Some (n, e) \<and>
              gdf st ! i = (rows ! i)\<lparr>ReefID := Some (new_reef_id prefix (gs ! i) e)\<rparr>"
  have ok0: "all_parse_ok cs rows" by (rule process_existing_all_ok[OF pe]) simp
  have "parse_ok cs rid" if i: "i < length rows" and rid: "ReefID (gdf st ! i) = Some rid" for i rid
  proof (cases "ReefID (rows ! i)")
    case (Some s)
    from lab[OF i Some] rid have "ReefID (rows ! i) = Some rid" by simp
    with ok0 i show ?thesis unfolding all_parse_ok_def by (metis nth_mem)
  next
    case None
    from unlab[OF i None] rid obtain n e where
      m: "map_of (commits_of gs (gs ! i) rows (NS (gs ! i))) i = Some (n, e)"
      and r: "rid = new_reef_id prefix (gs ! i) e" by auto
    have gin: "gs ! i \<in> set gs" using i lgs by simp
    from chain_mono[OF ch[OF gin] commit_in_chain[OF m]]
    have enc: "encode_counter cs n zp = Some (Inr e)" by simp
    from encode_counter_chars[OF enc] hc have he: "CHR ''-'' \<notin> set e" by auto
    from grid_schemes_of_spec[OF gs] i have "grid_of cs (rows ! i) = Inr (gs ! i)" by simp
    then have "set (gs ! i) \<subseteq> set cs" unfolding grid_of_def by (rule encode_grid_chars)
    with hc have hg: "CHR ''-'' \<notin> set (gs ! i)" by auto
    from decode_counter_total[OF encode_counter_chars[OF enc]] obtain d where
      "decode_counter cs e = Inr d" by blast
    with split_reef_id_new_ok[OF hp hg he] r show ?thesis by (simp add: parse_ok_def)
  qed
  then show ?thesis unfolding all_parse_ok_def using l by (metis in_set_conv_nth)
qed

lemma run_labeled_fixpoint:
  assumes run: "run_allocator cs out prefix zp = Some (Inr st)"
    and all: "\<And>i. i < length out \<Longrightarrow> \<exists>s. ReefID (out ! i) = Some s"
  shows "gdf st = out"
  using run
proof (rule run_allocator_rows)
  fix cnt0 ex0 gs NS
  assume l: "length (gdf st) = length out"
    and lab: "\<And>i s. i < length out \<Longrightarrow> ReefID (out ! i) = Some s \<Longrightarrow> gdf st ! i = out ! i"
  show ?thesis
  proof (rule nth_equalityI[OF l])
    fix i assume "i < length (gdf st)"
    with l have i: "i < length out" by simp
    from all[OF i] obtain s where "ReefID (out ! i) = Some s" by blast
    from lab[OF i this] show "gdf st ! i = out ! i" .
  qed
qed

lemma unl_sub_gdf_labeled:
  assumes "\<And>i. i < length out \<Longrightarrow> \<exists>s. ReefID (out ! i) = Some s"
  shows "filter unl (sub_gdf gs g out) = []"
proof -
  have "\<not> unl x" if "x \<in> set (sub_gdf gs g out)" for x
  proof -
    from that obtain i where "x = (i, out ! i)" "i < length out" by (auto simp: set_sub_gdf)
    with assms[of i] show ?thesis by (auto simp: unl_def)
  qed
  then show ?thesis by (simp add: filter_empty_conv)
qed

lemma map_of_zip_pos:
  assumes "map_of (zip xs ys) i = Some y"
  shows "\<exists>k. k < length xs \<and> k < length ys \<and> xs ! k = i \<and> ys ! k = y"
proof -
  from map_of_SomeD[OF assms] have "(i, y) \<in> set (zip xs ys)" .
  then show ?thesis by (auto simp: in_set_zip)
qed

lemma init_nxt_nonneg:
  assumes "process_existing cs rows (Map.empty, Map.empty) = Inr (cnt0, ex0)"
  shows "0 \<le> nxt cnt0 p g"
proof -
  from process_existing_spec[OF assms] have
    "is_max (insert (nxt Map.empty p g) (decs_of cs rows p g)) (nxt cnt0 p g)" by simp
  moreover have "nxt Map.empty p g = 0" by (simp add: nxt_def cnt_at_def)
  ultimately show ?thesis by (simp add: is_max_def)
qed

lemma init_occ:
  assumes "process_existing cs rows (Map.empty, Map.empty) = Inr (cnt0, ex0)"
  shows "occ_at ex0 p g = codes_of rows p g"
proof -
  from process_existing_spec[OF assms] have "occ_at ex0 p g = occ_at Map.empty p g \<union> codes_of rows p g"
    by simp
  then show ?thesis by (simp add: occ_at_def)
qed

lemma new_reef_id_eq:
  assumes "new_reef_id p g e = new_reef_id p g' e'" "length g = length g'"
  shows "g = g' \<and> e = e'"
  using assms by (simp add: new_reef_id_def)

lemma run_new_vs_existing:
  assumes run: "run_allocator cs rows prefix zp = Some (Inr st)"
    and i: "i < length rows" and j: "j < length rows"
    and si: "ReefID (rows ! i) = Some rid" and nj: "ReefID (rows ! j) = None"
  shows "ReefID (gdf st ! j) \<noteq> Some rid"
  using run
proof (rule run_allocator_rows)
  fix cnt0 ex0 gs NS
  assume pe: "process_existing cs rows (Map.empty, Map.empty) = Inr (cnt0, ex0)"
    and lgs: "length gs = length rows"
    and ch: "\<And>g. g \<in> set gs \<Longrightarrow> chain cs zp (occ_at ex0 prefix g) (nxt cnt0 prefix g) (NS g)"
    and unlab: "\<And>i. i < length rows \<Longrightarrow> ReefID (rows ! i) = None \<Longrightarrow>
        \<exists>n e. map_of (commits_of gs (gs ! i) rows (NS (gs ! i))) i = Some (n, e) \<and>
              gdf st ! i = (rows ! i)\<lparr>ReefID := Some (new_reef_id prefix (gs ! i) e)\<rparr>"
  from unlab[OF j nj] obtain n e where
    m: "map_of (commits_of gs (gs ! j) rows (NS (gs ! j))) j = Some (n, e)"
    and o: "ReefID (gdf st ! j) = Some (new_reef_id prefix (gs ! j) e)" by auto
  have gin: "gs ! j \<in> set gs" using j lgs by simp
  from chain_mono[OF ch[OF gin] commit_in_chain[OF m]]
  have free: "e \<notin> occ_at ex0 prefix (gs ! j)" by simp
  show ?thesis
  proof
    assume "ReefID (gdf st ! j) = Some rid"
    with o have rid: "rid = new_reef_id prefix (gs ! j) e" by simp
    have "all_parse_ok cs rows" by (rule process_existing_all_ok[OF pe]) simp
    with i si have "parse_ok cs rid" unfolding all_parse_ok_def by (metis nth_mem)
    then obtain a b c where sp: "split_reef_id rid = Inr (a, b, c)"
      by (auto simp: parse_ok_def split: sum.splits)
    from split_reef_id_new_inv[OF sp[unfolded rid]] sp
    have "split_reef_id rid = Inr (prefix, gs ! j, e)" by simp
    with i si have "e \<in> codes_of rows prefix (gs ! j)"
      unfolding codes_of_def by (auto intro!: bexI[of _ "rows ! i"])
    with init_occ[OF pe] free show False by simp
  qed
qed

lemma run_new_vs_new:
  assumes run: "run_allocator cs rows prefix zp = Some (Inr st)" and d: "distinct cs"
    and i: "i < length rows" and j: "j < length rows" and ij: "i \<noteq> j"
    and ni: "ReefID (rows ! i) = None" and nj: "ReefID (rows ! j) = None"
  shows "ReefID (gdf st ! i) \<noteq> ReefID (gdf st ! j)"
  using run
proof (rule run_allocator_rows)
  fix cnt0 ex0 gs NS
  assume pe: "process_existing cs rows (Map.empty, Map.empty) = Inr (cnt0, ex0)"
    and gs: "grid_schemes_of cs rows = Inr gs"
    and lgs: "length gs = length rows"
    and ch: "\<And>g. g \<in> set gs \<Longrightarrow> chain cs zp (occ_at ex0 prefix g) (nxt cnt0 prefix g) (NS g)"
    and unlab: "\<And>i. i < length rows \<Longrightarrow> ReefID (rows ! i) = None \<Longrightarrow>
        \<exists>n e. map_of (commits_of gs (gs ! i) rows (NS (gs ! i))) i = Some (n, e) \<and>
              gdf st ! i = (rows ! i)\<lparr>ReefID := Some (new_reef_id prefix (gs ! i) e)\<rparr>"
  from unlab[OF i ni] obtain n e where
    mi: "map_of (commits_of gs (gs ! i) rows (NS (gs ! i))) i = Some (n, e)"
    and oi: "ReefID (gdf st ! i) = Some (new_reef_id prefix (gs ! i) e)" by auto
  from unlab[OF j nj] obtain n' e' where
    mj: "map_of (commits_of gs (gs ! j) rows (NS (gs ! j))) j = Some (n', e')"
    and oj: "ReefID (gdf st ! j) = Some (new_reef_id prefix (gs ! j) e')" by auto
  have len4: "length (gs ! k) = 4" if "k < length rows" for k
  proof -
    from grid_schemes_of_spec[OF gs] that have "grid_of cs (rows ! k) = Inr (gs ! k)" by simp
    then show ?thesis unfolding grid_of_def by (rule encode_grid_length)
  qed
  show ?thesis
  proof
    assume "ReefID (gdf st ! i) = ReefID (gdf st ! j)"
    with oi oj have "new_reef_id prefix (gs ! i) e = new_reef_id prefix (gs ! j) e'" by simp
    from new_reef_id_eq[OF this] len4[OF i] len4[OF j] have g: "gs ! i = gs ! j" and e: "e = e'" by simp_all
    let ?g = "gs ! i"
    have gin: "?g \<in> set gs" using i lgs by simp
    note c = ch[OF gin]
    let ?I = "map fst (filter unl (sub_gdf gs ?g rows))"
    from mi have "map_of (zip ?I (NS ?g)) i = Some (n, e)" by (simp add: commits_of_def)
    from map_of_zip_pos[OF this] obtain k where
      k: "k < length ?I" "k < length (NS ?g)" "?I ! k = i" "NS ?g ! k = (n, e)" by blast
    from mj g e have "map_of (zip ?I (NS ?g)) j = Some (n', e)" by (simp add: commits_of_def)
    from map_of_zip_pos[OF this] obtain k' where
      k': "k' < length ?I" "k' < length (NS ?g)" "?I ! k' = j" "NS ?g ! k' = (n', e)" by blast
    from k(3) k'(3) ij have kk: "k \<noteq> k'" by auto
    have "n \<noteq> n'"
    proof (cases "k < k'")
      case True
      from chain_sorted[OF c True k'(2)] k(4) k'(4) show ?thesis by simp
    next
      case False
      with kk have "k' < k" by simp
      from chain_sorted[OF c this k(2)] k(4) k'(4) show ?thesis by simp
    qed
    moreover
    from chain_mono[OF c commit_in_chain[OF mi]] init_nxt_nonneg[OF pe, of prefix ?g]
    have a: "0 \<le> n" "encode_counter cs n zp = Some (Inr e)" by simp_all
    from chain_mono[OF c commit_in_chain[OF mj[folded g]]] init_nxt_nonneg[OF pe, of prefix ?g] e
    have b: "0 \<le> n'" "encode_counter cs n' zp = Some (Inr e)" by simp_all
    from encode_counter_inj[OF d a(1) b(1) a(2) b(2)] have "n = n'" .
    ultimately show False by simp
  qed
qed

lemma run_length:
  assumes run: "run_allocator cs rows prefix zp = Some (Inr st)"
  shows "length (gdf st) = length rows"
  using run by (rule run_allocator_rows)

lemma run_labeled_same:
  assumes run: "run_allocator cs rows prefix zp = Some (Inr st)"
    and "i < length rows" "ReefID (rows ! i) = Some s"
  shows "gdf st ! i = rows ! i"
  using run
proof (rule run_allocator_rows)
  fix cnt0 ex0 gs NS
  assume "\<And>i s. i < length rows \<Longrightarrow> ReefID (rows ! i) = Some s \<Longrightarrow> gdf st ! i = rows ! i"
  with assms(2,3) show ?thesis by blast
qed

lemma set_reef_ids:
  "set (reef_ids rows) = {s. \<exists>j<length rows. ReefID (rows ! j) = Some s}"
proof (induction rows)
  case Nil
  then show ?case by simp
next
  case (Cons row rows)
  have "(\<exists>j<Suc (length rows). ReefID ((row # rows) ! j) = Some s) =
        (ReefID row = Some s \<or> (\<exists>j<length rows. ReefID (rows ! j) = Some s))" for s
  proof
    assume "\<exists>j<Suc (length rows). ReefID ((row # rows) ! j) = Some s"
    then obtain j where j: "j < Suc (length rows)" "ReefID ((row # rows) ! j) = Some s" by blast
    then show "ReefID row = Some s \<or> (\<exists>j<length rows. ReefID (rows ! j) = Some s)"
      by (cases j) auto
  next
    assume "ReefID row = Some s \<or> (\<exists>j<length rows. ReefID (rows ! j) = Some s)"
    then show "\<exists>j<Suc (length rows). ReefID ((row # rows) ! j) = Some s"
    proof
      assume "ReefID row = Some s"
      then show ?thesis by (intro exI[of _ 0]) simp
    next
      assume "\<exists>j<length rows. ReefID (rows ! j) = Some s"
      then obtain j where "j < length rows" "ReefID (rows ! j) = Some s" by blast
      then show ?thesis by (intro exI[of _ "Suc j"]) simp
    qed
  qed
  with Cons show ?case by (cases "ReefID row") auto
qed

lemma ids_unique_nth:
  "ids_unique rows =
     (\<forall>i j. i < j \<and> j < length rows \<and> ReefID (rows ! i) \<noteq> None \<longrightarrow>
            ReefID (rows ! i) \<noteq> ReefID (rows ! j))"
proof (induction rows)
  case Nil
  then show ?case by (simp add: ids_unique_def)
next
  case (Cons row rows)
  let ?Q = "\<lambda>rows. \<forall>i j. i < j \<and> j < length rows \<and> ReefID (rows ! i) \<noteq> None \<longrightarrow>
            ReefID (rows ! i) \<noteq> ReefID (rows ! j)"
  have step: "?Q (row # rows) =
      ((\<forall>j<length rows. ReefID row \<noteq> None \<longrightarrow> ReefID row \<noteq> ReefID (rows ! j)) \<and> ?Q rows)"
  proof
    assume q: "?Q (row # rows)"
    have "ReefID row \<noteq> ReefID (rows ! j)" if "j < length rows" "ReefID row \<noteq> None" for j
      using q[rule_format, of 0 "Suc j"] that by simp
    moreover have "ReefID (rows ! i) \<noteq> ReefID (rows ! j)"
      if "i < j" "j < length rows" "ReefID (rows ! i) \<noteq> None" for i j
      using q[rule_format, of "Suc i" "Suc j"] that by simp
    ultimately show "(\<forall>j<length rows. ReefID row \<noteq> None \<longrightarrow> ReefID row \<noteq> ReefID (rows ! j)) \<and> ?Q rows"
      by blast
  next
    assume a: "(\<forall>j<length rows. ReefID row \<noteq> None \<longrightarrow> ReefID row \<noteq> ReefID (rows ! j)) \<and> ?Q rows"
    show "?Q (row # rows)"
    proof (intro allI impI)
      fix i j assume h: "i < j \<and> j < length (row # rows) \<and> ReefID ((row # rows) ! i) \<noteq> None"
      then obtain j' where j': "j = Suc j'" by (cases j) auto
      show "ReefID ((row # rows) ! i) \<noteq> ReefID ((row # rows) ! j)"
      proof (cases i)
        case 0
        with h j' a show ?thesis by simp
      next
        case (Suc i')
        with h j' a show ?thesis by simp
      qed
    qed
  qed
  have hd: "(\<forall>j<length rows. ReefID row \<noteq> None \<longrightarrow> ReefID row \<noteq> ReefID (rows ! j)) =
        (case ReefID row of None \<Rightarrow> True | Some s \<Rightarrow> s \<notin> set (reef_ids rows))"
    by (cases "ReefID row") (auto simp: set_reef_ids)
  have "ids_unique (row # rows) =
        ((case ReefID row of None \<Rightarrow> True | Some s \<Rightarrow> s \<notin> set (reef_ids rows)) \<and> ids_unique rows)"
    by (cases "ReefID row") (simp_all add: ids_unique_def)
  with Cons.IH step hd show ?case by simp
qed

section \<open>The claims\<close>

text \<open>
  C4. For an alphabet of distinct symbols, a counter \<open>n \<ge> 0\<close> and any padding width,
  whatever string \<open>encode_counter\<close> returns is decoded by \<open>decode_counter\<close> to \<open>n\<close>; with
  at least two symbols in the alphabet \<open>encode_counter\<close> does return a string.
\<close>

theorem encode_counter_roundtrip:
  "distinct cs \<Longrightarrow> 0 \<le> n \<Longrightarrow>
     (\<forall>s. encode_counter cs n w = Some (Inr s) \<longrightarrow> decode_counter cs s = Inr n) \<and>
     (2 \<le> length cs \<longrightarrow> (\<exists>s. encode_counter cs n w = Some (Inr s)))"
  using encode_counter_decode encode_counter_total by blast

theorem encode_counter_roundtrip_witness:
  "distinct BASE_B10 \<and> (0::int) \<le> 172 \<and> 2 \<le> length BASE_B10 \<and>
   encode_counter BASE_B10 172 3 = Some (Inr ''172'') \<and>
   decode_counter BASE_B10 ''172'' = Inr 172"
proof -
  have d: "distinct BASE_B10" by (simp add: BASE_B10_def)
  have n: "(0::int) \<le> 172" by simp
  have l: "2 \<le> length BASE_B10" by (simp add: BASE_B10_def)
  have e: "encode_counter BASE_B10 172 3 = Some (Inr ''172'')" by code_simp
  from encode_counter_roundtrip[OF d n, of 3] e
  have "decode_counter BASE_B10 ''172'' = Inr 172" by blast
  with d n l e show ?thesis by blast
qed

text \<open>
  C5. With the alphabet \<open>BASE_B32_CAPS\<close>, \<open>encode_grid(147, -20)\<close> is the string
  \<open>X4EG\<close>: the two longitude digits \<open>X\<close>, \<open>4\<close> come first, then the two latitude digits
  \<open>E\<close>, \<open>G\<close>. The string \<open>XE4G\<close> that \<open>run_tests\<close> asserts has the two middle digits the
  other way round. At this input every intermediate value (327, 70, 11.25, 5.625,
  0.3515625, 0.17578125, 0.75, 2.5) is a binary fraction of a few bits, so binary64
  arithmetic computes it without rounding.
\<close>

theorem encode_grid_147_m20:
  "encode_grid BASE_B32_CAPS 147 (- 20) = Inr ''X4EG''"
  by code_simp

text \<open>
  C8. The claim is that \<open>encode_grid\<close> returns four symbols of the alphabet for every
  longitude in \<open>[-180, 180)\<close> and latitude in \<open>[-90, 90)\<close>. The largest float below 180 is
  \<open>180 - 2 ^ -45\<close> (179.99999999999997). It lies in the domain, but \<open>lon + 180\<close> is
  halfway between the floats \<open>360 - 2 ^ -44\<close> and \<open>360\<close> and rounds to \<open>360\<close>, so
  \<open>lon_major = int(360.0 // LON_SLICE_SIZE)\<close> is the size of the alphabet and
  \<open>base_char_set[lon_major]\<close> raises \<open>IndexError\<close>, with the default alphabet
  \<open>BASE_B10\<close> and with \<open>BASE_B32_CAPS\<close> alike. The same happens to the latitude at the
  largest float below 90, \<open>90 - 2 ^ -46\<close>.
\<close>

theorem encode_grid_upper_edge:
  "is_binary64 (180 - 1 / 2 ^ 45) \<and> is_binary64 (90 - 1 / 2 ^ 46) \<and>
   - 180 \<le> (180 - 1 / 2 ^ 45 :: rat) \<and> (180 - 1 / 2 ^ 45 :: rat) < 180 \<and>
   - 90 \<le> (90 - 1 / 2 ^ 46 :: rat) \<and> (90 - 1 / 2 ^ 46 :: rat) < 90 \<and>
   encode_grid BASE_B10 (180 - 1 / 2 ^ 45) 0 = Inl IndexError \<and>
   encode_grid BASE_B32_CAPS (180 - 1 / 2 ^ 45) 0 = Inl IndexError \<and>
   encode_grid BASE_B10 0 (90 - 1 / 2 ^ 46) = Inl IndexError"
  by code_simp

text \<open>
  C9, as the code has it. For a non-empty alphabet \<open>encode_counter(0, w)\<close> returns the
  zero symbol repeated \<open>w\<close> times when \<open>w \<ge> 1\<close> and the empty string when \<open>w \<le> 0\<close>; it
  rejects no width.
\<close>

theorem encode_counter_zero:
  "cs \<noteq> [] \<Longrightarrow> encode_counter cs 0 w = Some (Inr (replicate (nat w) (cs ! 0)))"
  by (simp add: encode_counter_def encode_counter_digits.simps pad_total)

theorem encode_counter_zero_witness:
  "BASE_B10 \<noteq> [] \<and> encode_counter BASE_B10 0 3 = Some (Inr ''000'')"
proof -
  have ne: "BASE_B10 \<noteq> []" by (simp add: BASE_B10_def)
  from encode_counter_zero[OF ne, of 3] ne show ?thesis
    by (simp add: BASE_B10_def numeral_3_eq_3)
qed

text \<open>
  The claim C9 as stated fails at width 0: the result is the empty string, which is
  neither a single zero symbol nor a rejection.
\<close>

theorem encode_counter_zero_width_counterexample:
  "encode_counter BASE_B10 0 0 = Some (Inr [])"
  by (simp add: encode_counter_def encode_counter_digits.simps encode_counter_pad.simps BASE_B10_def)

text \<open>
  C2. When a run completes, the saved frame has as many rows as the input and every row
  that had a ReefID is saved unchanged: the allocator writes only to rows whose ReefID
  was missing.
\<close>

theorem existing_ids_unchanged:
  "process_shapefile cs rows prefix zp = Some (Inr out) \<Longrightarrow>
     length out = length rows \<and>
     (\<forall>i<length rows. ReefID (rows ! i) \<noteq> None \<longrightarrow> out ! i = rows ! i)"
proof -
  assume "process_shapefile cs rows prefix zp = Some (Inr out)"
  then obtain st where run: "run_allocator cs rows prefix zp = Some (Inr st)" and out: "out = gdf st"
    using process_shapefile_Inr by blast
  from run show ?thesis
  proof (rule run_allocator_rows)
    fix cnt0 ex0 gs NS
    assume "length (gdf st) = length rows"
      and "\<And>i s. i < length rows \<Longrightarrow> ReefID (rows ! i) = Some s \<Longrightarrow> gdf st ! i = rows ! i"
    with out show ?thesis by auto
  qed
qed

theorem existing_ids_unchanged_witness:
  "process_shapefile BASE_B10
     [\<lparr>ReefID = Some ''R-9138-000'', centroid = (150, - 20)\<rparr>,
      \<lparr>ReefID = None, centroid = (150, - 20)\<rparr>] ''R'' 3 =
   Some (Inr [\<lparr>ReefID = Some ''R-9138-000'', centroid = (150, - 20)\<rparr>,
              \<lparr>ReefID = Some ''R-9138-001'', centroid = (150, - 20)\<rparr>]) \<and>
   [\<lparr>ReefID = Some ''R-9138-000'', centroid = (150, - 20)\<rparr>,
    \<lparr>ReefID = Some ''R-9138-001'', centroid = (150, - 20)\<rparr>] ! 0 =
   \<lparr>ReefID = Some ''R-9138-000'', centroid = (150, - 20)\<rparr>"
proof -
  have e: "process_shapefile BASE_B10
     [\<lparr>ReefID = Some ''R-9138-000'', centroid = (150, - 20)\<rparr>,
      \<lparr>ReefID = None, centroid = (150, - 20)\<rparr>] ''R'' 3 =
   Some (Inr [\<lparr>ReefID = Some ''R-9138-000'', centroid = (150, - 20)\<rparr>,
              \<lparr>ReefID = Some ''R-9138-001'', centroid = (150, - 20)\<rparr>])"
    by code_simp
  from existing_ids_unchanged[OF e] e show ?thesis by simp
qed

text \<open>
  C6, as the code has it. The script unpacks \<open>reef_id.split('-')\<close> into three names with
  no handler around it: an existing ReefID that does not split into exactly three parts
  raises \<open>ValueError\<close> in the first loop and the run ends there, before any identifier is
  assigned and before anything is saved.
\<close>

theorem malformed_id_aborts:
  "row \<in> set rows \<Longrightarrow> ReefID row = Some rid \<Longrightarrow> length (split_sep CHR ''-'' rid) \<noteq> 3 \<Longrightarrow>
     process_shapefile cs rows prefix zp = Some (Inl ValueError)"
proof -
  assume r: "row \<in> set rows" and id: "ReefID row = Some rid"
    and l: "length (split_sep CHR ''-'' rid) \<noteq> 3"
  from split_reef_id_length[OF l] have "\<not> parse_ok cs rid" by (simp add: parse_ok_def)
  with r id have "\<not> all_parse_ok cs rows" by (auto simp: all_parse_ok_def)
  then have "process_existing cs rows (Map.empty, Map.empty) = Inl ValueError"
    by (intro process_existing_fail) simp_all
  then show ?thesis by (simp add: process_shapefile_def run_allocator_def)
qed

theorem malformed_id_aborts_witness:
  "\<lparr>ReefID = Some ''R9140-172'', centroid = (148, - 17)\<rparr> \<in>
     set [\<lparr>ReefID = None, centroid = (150, - 20)\<rparr>,
          \<lparr>ReefID = Some ''R9140-172'', centroid = (148, - 17)\<rparr>] \<and>
   length (split_sep CHR ''-'' ''R9140-172'') \<noteq> 3 \<and>
   process_shapefile BASE_B10
     [\<lparr>ReefID = None, centroid = (150, - 20)\<rparr>,
      \<lparr>ReefID = Some ''R9140-172'', centroid = (148, - 17)\<rparr>] ''R'' 3 = Some (Inl ValueError)"
proof -
  have m: "\<lparr>ReefID = Some ''R9140-172'', centroid = (148, - 17)\<rparr> \<in>
     set [\<lparr>ReefID = None, centroid = (150, - 20)\<rparr>,
          \<lparr>ReefID = Some ''R9140-172'', centroid = (148, - 17)\<rparr>]" by simp
  have i: "ReefID \<lparr>ReefID = Some ''R9140-172'', centroid = (148, - 17)\<rparr> = Some ''R9140-172''"
    by simp
  have l: "length (split_sep CHR ''-'' ''R9140-172'') \<noteq> 3" by simp
  from malformed_id_aborts[OF m i l] m l show ?thesis by blast
qed

text \<open>
  The claim C6 as stated fails: with the two-part ReefID \<open>R-9138\<close> on the first row the
  run raises instead of skipping the row, and the unlabeled second row gets no identifier.
\<close>

theorem malformed_id_fatal_counterexample:
  "process_shapefile BASE_B10
     [\<lparr>ReefID = Some ''R-9138'', centroid = (150, - 20)\<rparr>,
      \<lparr>ReefID = None, centroid = (150, - 20)\<rparr>] ''R'' 3 = Some (Inl ValueError)"
  by code_simp

text \<open>
  C10. One commit (lines 123 to 140) takes a counter that is at least the stored next
  counter of its prefix and grid code (0 when nothing is stored), stores that counter
  plus one as the next counter, and leaves the set of occupied counter codes as it was.
  Over a whole run, of two commits with the same grid code the later one has the strictly
  larger counter. The hypothesis \<open>dom cnt = dom ex\<close> says that the two dictionaries have
  the same prefixes, which the script keeps true by creating both entries together.
\<close>

theorem counters_strictly_increasing:
  "(assign_counter cs prefix zp g (cnt, ex) = Some (Inr (n, enc, cnt', ex')) \<longrightarrow> dom cnt = dom ex \<longrightarrow>
      nxt cnt prefix g \<le> n \<and> nxt cnt' prefix g = n + 1 \<and>
      occ_at ex' prefix g = occ_at ex prefix g) \<and>
   (run_allocator cs rows prefix zp = Some (Inr st) \<longrightarrow>
      (\<forall>a b. a < b \<and> b < length (assigned st) \<and>
             fst (snd (assigned st ! a)) = fst (snd (assigned st ! b)) \<longrightarrow>
             snd (snd (assigned st ! a)) < snd (snd (assigned st ! b))))"
proof (rule conjI)
  show "assign_counter cs prefix zp g (cnt, ex) = Some (Inr (n, enc, cnt', ex')) \<longrightarrow> dom cnt = dom ex \<longrightarrow>
      nxt cnt prefix g \<le> n \<and> nxt cnt' prefix g = n + 1 \<and>
      occ_at ex' prefix g = occ_at ex prefix g"
  proof (rule impI, rule impI)
    assume ac: "assign_counter cs prefix zp g (cnt, ex) = Some (Inr (n, enc, cnt', ex'))"
      and dm: "dom cnt = dom ex"
    from assign_counter_sound[OF ac dm]
    show "nxt cnt prefix g \<le> n \<and> nxt cnt' prefix g = n + 1 \<and> occ_at ex' prefix g = occ_at ex prefix g"
      by (simp add: first_free_def)
  qed
next
  show "run_allocator cs rows prefix zp = Some (Inr st) \<longrightarrow>
      (\<forall>a b. a < b \<and> b < length (assigned st) \<and>
             fst (snd (assigned st ! a)) = fst (snd (assigned st ! b)) \<longrightarrow>
             snd (snd (assigned st ! a)) < snd (snd (assigned st ! b)))"
  proof (rule impI)
    assume run: "run_allocator cs rows prefix zp = Some (Inr st)"
    from run have "log_increasing (assigned st)"
    proof (rule run_allocator_rows)
      fix cnt0 ex0 gs NS
      assume ch: "\<And>g. g \<in> set gs \<Longrightarrow> chain cs zp (occ_at ex0 prefix g) (nxt cnt0 prefix g) (NS g)"
        and lg: "assigned st = concat (map (\<lambda>g. log_of g (commits_of gs g rows (NS g))) (unique gs))"
      have "\<forall>g\<in>set (unique gs). log_increasing (log_of g (commits_of gs g rows (NS g))) \<and>
              (\<forall>x\<in>set (log_of g (commits_of gs g rows (NS g))). fst (snd x) = g)"
        using ch by (auto simp: set_unique commits_of_def intro: seg_increasing dest: log_of_grid)
      from concat_increasing[OF distinct_unique this] lg
      show "log_increasing (assigned st)" by simp
    qed
    then show "\<forall>a b. a < b \<and> b < length (assigned st) \<and>
               fst (snd (assigned st ! a)) = fst (snd (assigned st ! b)) \<longrightarrow>
               snd (snd (assigned st ! a)) < snd (snd (assigned st ! b))"
      unfolding log_increasing_def sorted_wrt_iff_nth_less by blast
  qed
qed

theorem counters_strictly_increasing_witness:
  "\<exists>cnt' ex' st.
     assign_counter BASE_B10 ''R'' 3 ''9138'' (Map.empty, Map.empty) =
       Some (Inr (0, ''000'', cnt', ex')) \<and>
     nxt Map.empty ''R'' ''9138'' \<le> 0 \<and> nxt cnt' ''R'' ''9138'' = 0 + 1 \<and>
     run_allocator BASE_B10
       [\<lparr>ReefID = Some ''R-9138-000'', centroid = (150, - 20)\<rparr>,
        \<lparr>ReefID = None, centroid = (150, - 20)\<rparr>,
        \<lparr>ReefID = None, centroid = (301 / 2, - (41 / 2))\<rparr>] ''R'' 3 = Some (Inr st) \<and>
     assigned st = [(1, ''9138'', 1), (2, ''9138'', 2)] \<and>
     snd (snd (assigned st ! 0)) < snd (snd (assigned st ! 1))"
proof -
  let ?rows = "[\<lparr>ReefID = Some ''R-9138-000'', centroid = (150, - 20)\<rparr>,
        \<lparr>ReefID = None, centroid = (150, - 20)\<rparr>,
        \<lparr>ReefID = None, centroid = (301 / 2, - (41 / 2))\<rparr>]"
  have e0: "encode_counter BASE_B10 0 3 = Some (Inr ''000'')" by code_simp
  have "first_free BASE_B10 3 (occ_at Map.empty ''R'' ''9138'') (nxt Map.empty ''R'' ''9138'') 0 ''000''"
    using e0 by (simp add: first_free_def occ_at_def nxt_def cnt_at_def)
  from assign_counter_complete[OF this] obtain cnt' ex' where
    ac: "assign_counter BASE_B10 ''R'' 3 ''9138'' (Map.empty, Map.empty) =
       Some (Inr (0, ''000'', cnt', ex'))" by auto
  have ev: "map_option (map_sum id assigned) (run_allocator BASE_B10 ?rows ''R'' 3) =
      Some (Inr [(1, ''9138'', 1), (2, ''9138'', 2)])"
    by code_simp
  then obtain r where r: "run_allocator BASE_B10 ?rows ''R'' 3 = Some r"
    and m: "map_sum id assigned r = Inr [(1, ''9138'', 1), (2, ''9138'', 2)]" by auto
  from m obtain st where st: "r = Inr st" and lg: "assigned st = [(1, ''9138'', 1), (2, ''9138'', 2)]"
    by (cases r) auto
  from r st have run: "run_allocator BASE_B10 ?rows ''R'' 3 = Some (Inr st)" by simp
  have dm: "dom (Map.empty :: feature_count) = dom (Map.empty :: existing_ids)" by simp
  from counters_strictly_increasing[of BASE_B10 "''R''" 3 "''9138''" Map.empty Map.empty 0 "''000''" cnt' ex' ?rows st]
    ac dm run
  have c1: "nxt Map.empty ''R'' ''9138'' \<le> 0" and c2: "nxt cnt' ''R'' ''9138'' = 0 + 1"
    and c3: "\<forall>a b. a < b \<and> b < length (assigned st) \<and>
             fst (snd (assigned st ! a)) = fst (snd (assigned st ! b)) \<longrightarrow>
             snd (snd (assigned st ! a)) < snd (snd (assigned st ! b))"
    by blast+
  from c3 lg have c4: "snd (snd (assigned st ! 0)) < snd (snd (assigned st ! 1))" by simp
  from ac c1 c2 run lg c4 show ?thesis by blast
qed

text \<open>
  C3, as the code has it. When neither the prefix nor the alphabet contains a hyphen
  (none of the five alphabets of the script does), a run on the saved frame of a
  completed run completes too and saves the same frame: no row is left without a ReefID
  after the first run, so the second one assigns nothing.
\<close>

theorem allocator_idempotent:
  assumes first: "process_shapefile cs rows prefix zp = Some (Inr out)"
    and hp: "CHR ''-'' \<notin> set prefix" and hc: "CHR ''-'' \<notin> set cs"
  shows "process_shapefile cs out prefix zp = Some (Inr out) \<and> list_all (\<lambda>row. ReefID row \<noteq> None) out"
proof -
  from process_shapefile_Inr[OF first] obtain st where
    run: "run_allocator cs rows prefix zp = Some (Inr st)" and out: "out = gdf st" by blast
  have l: "length out = length rows"
    using run out by (elim run_allocator_rows) simp
  have all: "\<exists>s. ReefID (out ! i) = Some s" if "i < length out" for i
    using run_out_labeled[OF run, of i] that l out by simp
  have ok: "all_parse_ok cs out" unfolding out by (rule run_out_parse_ok[OF run hp hc])
  from process_existing_total[OF _ ok, of Map.empty Map.empty] obtain cnt1 ex1 where
    pe: "process_existing cs out (Map.empty, Map.empty) = Inr (cnt1, ex1)" by auto
  have "map centroid out = map centroid rows"
    using l run_out_centroid[OF run] out by (intro nth_equalityI) simp_all
  from grid_schemes_of_cong[OF this, of cs] run obtain gs where
    gs: "grid_schemes_of cs out = Inr gs"
    by (elim run_allocator_rows) simp
  have "\<forall>g\<in>set gs. \<exists>ns. chain cs zp (occ_at ex1 prefix g) (nxt cnt1 prefix g) ns \<and>
                 length ns = length (filter unl (sub_gdf gs g out))"
    using unl_sub_gdf_labeled[of out gs, OF all] by (intro ballI exI[of _ "[]"]) simp
  from run_allocator_complete[OF pe gs this] obtain st2 where
    run2: "run_allocator cs out prefix zp = Some (Inr st2)" by blast
  from run_labeled_fixpoint[OF run2 all] have "gdf st2 = out" by simp
  with run2 have "process_shapefile cs out prefix zp = Some (Inr out)"
    by (simp add: process_shapefile_def)
  moreover have "list_all (\<lambda>row. ReefID row \<noteq> None) out"
    unfolding list_all_length using all by auto
  ultimately show ?thesis by simp
qed

theorem allocator_idempotent_witness:
  "process_shapefile BASE_B10
     [\<lparr>ReefID = Some ''R-9138-004'', centroid = (150, - 20)\<rparr>,
      \<lparr>ReefID = None, centroid = (150, - 20)\<rparr>] ''R'' 3 =
   Some (Inr [\<lparr>ReefID = Some ''R-9138-004'', centroid = (150, - 20)\<rparr>,
              \<lparr>ReefID = Some ''R-9138-005'', centroid = (150, - 20)\<rparr>]) \<and>
   CHR ''-'' \<notin> set ''R'' \<and> CHR ''-'' \<notin> set BASE_B10 \<and>
   process_shapefile BASE_B10
     [\<lparr>ReefID = Some ''R-9138-004'', centroid = (150, - 20)\<rparr>,
      \<lparr>ReefID = Some ''R-9138-005'', centroid = (150, - 20)\<rparr>] ''R'' 3 =
   Some (Inr [\<lparr>ReefID = Some ''R-9138-004'', centroid = (150, - 20)\<rparr>,
              \<lparr>ReefID = Some ''R-9138-005'', centroid = (150, - 20)\<rparr>])"
proof -
  have e: "process_shapefile BASE_B10
     [\<lparr>ReefID = Some ''R-9138-004'', centroid = (150, - 20)\<rparr>,
      \<lparr>ReefID = None, centroid = (150, - 20)\<rparr>] ''R'' 3 =
   Some (Inr [\<lparr>ReefID = Some ''R-9138-004'', centroid = (150, - 20)\<rparr>,
              \<lparr>ReefID = Some ''R-9138-005'', centroid = (150, - 20)\<rparr>])"
    by code_simp
  have hp: "CHR ''-'' \<notin> set ''R''" by simp
  have hc: "CHR ''-'' \<notin> set BASE_B10" by (simp add: BASE_B10_def)
  from allocator_idempotent[OF e hp hc] e hp hc show ?thesis by blast
qed

text \<open>
  The claim C3 as stated fails for a prefix with a hyphen: the first run labels the row
  \<open>R-X-9138-000\<close>, and the second run raises \<open>ValueError\<close> when it splits that
  identifier into four parts.
\<close>

theorem allocator_idempotent_counterexample:
  "process_shapefile BASE_B10 [\<lparr>ReefID = None, centroid = (150, - 20)\<rparr>] ''R-X'' 3 =
     Some (Inr [\<lparr>ReefID = Some ''R-X-9138-000'', centroid = (150, - 20)\<rparr>]) \<and>
   process_shapefile BASE_B10 [\<lparr>ReefID = Some ''R-X-9138-000'', centroid = (150, - 20)\<rparr>] ''R-X'' 3 =
     Some (Inl ValueError)"
  by code_simp

text \<open>
  C1, as the code has it. The allocator keeps every existing ReefID, so two rows that
  already share an identifier still share it after the run. When the identifiers present
  in the input are pairwise distinct and the alphabet has no repeated symbol, the
  identifiers of the saved frame are pairwise distinct: no two features share a full
  identifier string, hence none share a countercode within a prefix and grid code.
\<close>

theorem output_ids_unique:
  assumes d: "distinct cs" and u: "ids_unique rows"
    and p: "process_shapefile cs rows prefix zp = Some (Inr out)"
  shows "ids_unique out"
proof -
  from process_shapefile_Inr[OF p] obtain st where
    run: "run_allocator cs rows prefix zp = Some (Inr st)" and out: "out = gdf st" by blast
  have l: "length out = length rows" unfolding out by (rule run_length[OF run])
  show ?thesis unfolding ids_unique_nth
  proof (intro allI impI)
    fix i j assume h: "i < j \<and> j < length out \<and> ReefID (out ! i) \<noteq> None"
    then have i: "i < length rows" and j: "j < length rows" and ij: "i \<noteq> j" using l by simp_all
    show "ReefID (out ! i) \<noteq> ReefID (out ! j)"
    proof (cases "ReefID (rows ! i)")
      case None
      note ni = this
      show ?thesis
      proof (cases "ReefID (rows ! j)")
        case None
        from run_new_vs_new[OF run d i j ij ni None] show ?thesis by (simp add: out)
      next
        case (Some b)
        from run_labeled_same[OF run j Some] Some have "ReefID (out ! j) = Some b" by (simp add: out)
        with run_new_vs_existing[OF run j i Some ni] show ?thesis by (simp add: out)
      qed
    next
      case (Some a)
      note si = this
      from run_labeled_same[OF run i Some] Some have oi: "ReefID (out ! i) = Some a" by (simp add: out)
      show ?thesis
      proof (cases "ReefID (rows ! j)")
        case None
        with run_new_vs_existing[OF run i j si None] oi show ?thesis by (simp add: out)
      next
        case (Some b)
        from run_labeled_same[OF run j Some] have "out ! j = rows ! j" by (simp add: out)
        moreover from run_labeled_same[OF run i si] have "out ! i = rows ! i" by (simp add: out)
        moreover have "ReefID (rows ! i) \<noteq> ReefID (rows ! j)"
        proof -
          from h have "i < j" by simp
          moreover from si have "ReefID (rows ! i) \<noteq> None" by simp
          ultimately show ?thesis using u[unfolded ids_unique_nth] j by blast
        qed
        ultimately show ?thesis by simp
      qed
    qed
  qed
qed

theorem output_ids_unique_witness:
  "distinct BASE_B10 \<and>
   ids_unique [\<lparr>ReefID = Some ''R-9138-000'', centroid = (150, - 20)\<rparr>,
               \<lparr>ReefID = None, centroid = (150, - 20)\<rparr>,
               \<lparr>ReefID = None, centroid = (151, - 20)\<rparr>] \<and>
   process_shapefile BASE_B10
     [\<lparr>ReefID = Some ''R-9138-000'', centroid = (150, - 20)\<rparr>,
      \<lparr>ReefID = None, centroid = (150, - 20)\<rparr>,
      \<lparr>ReefID = None, centroid = (151, - 20)\<rparr>] ''R'' 3 =
   Some (Inr [\<lparr>ReefID = Some ''R-9138-000'', centroid = (150, - 20)\<rparr>,
              \<lparr>ReefID = Some ''R-9138-001'', centroid = (150, - 20)\<rparr>,
              \<lparr>ReefID = Some ''R-9138-002'', centroid = (151, - 20)\<rparr>]) \<and>
   ids_unique [\<lparr>ReefID = Some ''R-9138-000'', centroid = (150, - 20)\<rparr>,
               \<lparr>ReefID = Some ''R-9138-001'', centroid = (150, - 20)\<rparr>,
               \<lparr>ReefID = Some ''R-9138-002'', centroid = (151, - 20)\<rparr>]"
proof -
  have d: "distinct BASE_B10" by (simp add: BASE_B10_def)
  have u: "ids_unique [\<lparr>ReefID = Some ''R-9138-000'', centroid = (150, - 20)\<rparr>,
               \<lparr>ReefID = None, centroid = (150, - 20)\<rparr>,
               \<lparr>ReefID = None, centroid = (151, - 20)\<rparr>]"
    by (simp add: ids_unique_def)
  have e: "process_shapefile BASE_B10
     [\<lparr>ReefID = Some ''R-9138-000'', centroid = (150, - 20)\<rparr>,
      \<lparr>ReefID = None, centroid = (150, - 20)\<rparr>,
      \<lparr>ReefID = None, centroid = (151, - 20)\<rparr>] ''R'' 3 =
   Some (Inr [\<lparr>ReefID = Some ''R-9138-000'', centroid = (150, - 20)\<rparr>,
              \<lparr>ReefID = Some ''R-9138-001'', centroid = (150, - 20)\<rparr>,
              \<lparr>ReefID = Some ''R-9138-002'', centroid = (151, - 20)\<rparr>])"
    by code_simp
  from output_ids_unique[OF d u e] d u e show ?thesis by blast
qed

text \<open>
  The claim C1 as stated fails on an input that already holds a duplicate: both rows
  carry \<open>R-9138-000\<close>, the run completes, and both rows still carry it in the output.
\<close>

theorem output_ids_unique_counterexample:
  "process_shapefile BASE_B10
     [\<lparr>ReefID = Some ''R-9138-000'', centroid = (150, - 20)\<rparr>,
      \<lparr>ReefID = Some ''R-9138-000'', centroid = (150, - 20)\<rparr>] ''R'' 3 =
   Some (Inr [\<lparr>ReefID = Some ''R-9138-000'', centroid = (150, - 20)\<rparr>,
              \<lparr>ReefID = Some ''R-9138-000'', centroid = (150, - 20)\<rparr>]) \<and>
   \<not> ids_unique [\<lparr>ReefID = Some ''R-9138-000'', centroid = (150, - 20)\<rparr>,
                 \<lparr>ReefID = Some ''R-9138-000'', centroid = (150, - 20)\<rparr>]"
proof -
  have "process_shapefile BASE_B10
     [\<lparr>ReefID = Some ''R-9138-000'', centroid = (150, - 20)\<rparr>,
      \<lparr>ReefID = Some ''R-9138-000'', centroid = (150, - 20)\<rparr>] ''R'' 3 =
   Some (Inr [\<lparr>ReefID = Some ''R-9138-000'', centroid = (150, - 20)\<rparr>,
              \<lparr>ReefID = Some ''R-9138-000'', centroid = (150, - 20)\<rparr>])"
    by code_simp
  then show ?thesis by (simp add: ids_unique_def)
qed

end
